theory Spec2Isabelle
  imports Main "HOL-Library.Multiset"
begin

text \<open>
  The drainage network module \<open>geoframepy/topology/network.py\<close>: loading and validating a
  topology file, the upstream and downstream networks of a node, the gauge subnetwork
  with its \<open>gauge\<close> and \<open>calibrate\<close> attributes, writing a network back and ordering
  nodes. The module works on \<open>networkx.DiGraph\<close> objects; the graph operations and
  algorithms of networkx that it calls are modelled first, then the functions of the
  module under their own names, then their properties are proved.
\<close>

section \<open>Python values, errors and text files\<close>

text \<open>
  Node identifiers and gauge identifiers are hashable Python values. The topology loader
  produces strings, the docstring examples of \<open>network.py\<close> use integers next to the
  string sink \<open>"0"\<close>; an integer never equals a string (\<open>1 != '1'\<close>).
\<close>

datatype pyval = PInt int | PStr string

text \<open>The exceptions that the modelled code and the networkx calls in it can raise.\<close>

datatype error =
    IndexError
  | KeyError
  | ValueError
  | TypeError
  | NetworkXError
  | NetworkXUnfeasible
  | NetworkXPointlessConcept
  | NetworkXNoCycle

text \<open>
  \<open>str.split()\<close> without arguments: the string is cut at runs of whitespace and no empty
  token is produced. A character stands for its code point, below 256; the whitespace
  among these (\<open>str.isspace\<close>) is 9 to 13, 28 to 32, 133 and 160.
\<close>

definition is_space :: "char \<Rightarrow> bool" where
  "is_space c = ((of_char c :: nat) \<in> {9, 10, 11, 12, 13, 28, 29, 30, 31, 32, 133, 160})"

fun split_aux :: "string \<Rightarrow> string \<Rightarrow> string list" where
  "split_aux cur [] = (if cur = [] then [] else [cur])"
| "split_aux cur (c # cs) =
     (if is_space c
      then (if cur = [] then split_aux [] cs else cur # split_aux [] cs)
      else split_aux (cur @ [c]) cs)"

definition py_split :: "string \<Rightarrow> string list" where
  "py_split s = split_aux [] s"

text \<open>
  Iterating over a file opened in text mode yields its lines, each one with its line end
  translated to a single line feed (universal newlines: \<open>\n\<close>, \<open>\r\n\<close> and \<open>\r\<close> all
  end a line); a last line without line end is yielded as it is.
\<close>

fun lines_aux :: "string \<Rightarrow> string \<Rightarrow> string list" where
  "lines_aux cur [] = (if cur = [] then [] else [cur])"
| "lines_aux cur (c # cs) =
     (if c = CHR 0x0A then (cur @ [CHR 0x0A]) # lines_aux [] cs
      else if c = CHR 0x0D then
        (case cs of
           [] \<Rightarrow> [cur @ [CHR 0x0A]]
         | d # ds \<Rightarrow>
             if d = CHR 0x0A then (cur @ [CHR 0x0A]) # lines_aux [] ds
             else (cur @ [CHR 0x0A]) # lines_aux [] cs)
      else lines_aux (cur @ [c]) cs)"

definition file_lines :: "string \<Rightarrow> string list" where
  "file_lines content = lines_aux [] content"

section \<open>Directed graphs as networkx keeps them\<close>

text \<open>
  A \<open>networkx.DiGraph\<close>: the nodes in insertion order, the edges in insertion order (the
  order of the successors of a node and of its predecessors follows from it), and one
  attribute dictionary per node. Attribute values are Python values or \<open>None\<close>.
\<close>

record digraph =
  nodes :: "pyval list"
  edges :: "(pyval \<times> pyval) list"
  node_attr :: "pyval \<Rightarrow> (string \<rightharpoonup> pyval option)"

definition empty_graph :: digraph where
  "empty_graph = \<lparr>nodes = [], edges = [], node_attr = (\<lambda>_. Map.empty)\<rparr>"

text \<open>The class invariant of a \<open>DiGraph\<close>: no node and no edge is stored twice, and both
  ends of an edge are nodes.\<close>

definition wf_digraph :: "digraph \<Rightarrow> bool" where
  "wf_digraph g =
     (distinct (nodes g) \<and> distinct (edges g) \<and>
      list_all (\<lambda>e. fst e \<in> set (nodes g) \<and> snd e \<in> set (nodes g)) (edges g))"

definition succs :: "('a \<times> 'a) list \<Rightarrow> 'a \<Rightarrow> 'a list" where
  "succs es u = map snd (filter (\<lambda>e. fst e = u) es)"

definition preds :: "('a \<times> 'a) list \<Rightarrow> 'a \<Rightarrow> 'a list" where
  "preds es v = map fst (filter (\<lambda>e. snd e = v) es)"

definition successors :: "digraph \<Rightarrow> pyval \<Rightarrow> pyval list" where
  "successors g u = succs (edges g) u"

definition predecessors :: "digraph \<Rightarrow> pyval \<Rightarrow> pyval list" where
  "predecessors g v = preds (edges g) v"

definition has_node :: "digraph \<Rightarrow> pyval \<Rightarrow> bool" where
  "has_node g n = (n \<in> set (nodes g))"

definition add_node :: "digraph \<Rightarrow> pyval \<Rightarrow> digraph" where
  "add_node g n = (if n \<in> set (nodes g) then g else g\<lparr>nodes := nodes g @ [n]\<rparr>)"

definition add_edge :: "digraph \<Rightarrow> pyval \<times> pyval \<Rightarrow> digraph" where
  "add_edge g e =
     (let g' = add_node (add_node g (fst e)) (snd e)
      in if e \<in> set (edges g') then g' else g'\<lparr>edges := edges g' @ [e]\<rparr>)"

definition add_edges_from :: "digraph \<Rightarrow> (pyval \<times> pyval) list \<Rightarrow> digraph" where
  "add_edges_from g es = foldl add_edge g es"

text \<open>\<open>remove_nodes_from\<close> drops the listed nodes with their edges and attributes, and
  ignores a listed node that the graph does not have.\<close>

definition remove_nodes_from :: "digraph \<Rightarrow> pyval list \<Rightarrow> digraph" where
  "remove_nodes_from g ns =
     \<lparr>nodes = filter (\<lambda>n. n \<notin> set ns) (nodes g),
      edges = filter (\<lambda>e. fst e \<notin> set ns \<and> snd e \<notin> set ns) (edges g),
      node_attr = (\<lambda>n. if n \<in> set ns then Map.empty else node_attr g n)\<rparr>"

text \<open>
  \<open>nx.DiGraph(net.subgraph(ns))\<close>: a new graph with the nodes of \<open>net\<close> that are in
  \<open>ns\<close>, the edges of \<open>net\<close> between them, and their attributes. The copy is filled node
  by node, each with its retained successors; the nodes are taken here in the order of
  \<open>net\<close>. When \<open>ns\<close> is less than half of the graph, networkx walks its hash set of
  \<open>ns\<close> instead: the result then has the same nodes, edges and attributes, with the nodes
  and the predecessors of a node in another order, so that which predecessor comes first
  (the one a node without gauge inherits from in \<open>get_subgraph\<close>) can differ from this
  model.
\<close>

definition subgraph_copy :: "digraph \<Rightarrow> pyval list \<Rightarrow> digraph" where
  "subgraph_copy g ns =
     (let keep = filter (\<lambda>n. n \<in> set ns) (nodes g)
      in \<lparr>nodes = keep,
          edges = concat (map (\<lambda>u. map (\<lambda>v. (u, v))
                    (filter (\<lambda>v. v \<in> set keep) (successors g u))) keep),
          node_attr = (\<lambda>n. if n \<in> set keep then node_attr g n else Map.empty)\<rparr>)"

section \<open>The networkx algorithms the module calls\<close>

text \<open>
  Breadth-first search against the direction of the edges, as \<open>bfs_tree(G, source,
  reverse=True)\<close> walks it: the first node of the queue is expanded, and its predecessors
  that were not seen before are appended to the queue and to the nodes seen, in adjacency
  order. The result lists the nodes in the order in which the search tree received them.
\<close>

function bfs_rev :: "('a \<times> 'a) list \<Rightarrow> 'a list \<Rightarrow> 'a list \<Rightarrow> 'a list" where
  "bfs_rev es [] seen = seen"
| "bfs_rev es (x # queue) seen =
     (let new = remdups (filter (\<lambda>u. u \<notin> set seen) (preds es x))
      in bfs_rev es (queue @ new) (seen @ new))"
  by pat_completeness auto

lemma bfs_rev_new_subset:
  "set (remdups (filter (\<lambda>u. u \<notin> set seen) (preds es x))) \<subseteq> fst ` set es - set seen"
  by (auto simp: preds_def)

termination bfs_rev
proof (relation "measures [\<lambda>(es, q, seen). card (fst ` set es - set seen),
                           \<lambda>(es, q, seen). length q]", goal_cases)
  case 1
  show ?case by simp
next
  case (2 es x queue seen new)
  let ?U = "fst ` set es"
  show ?case
  proof (cases "new = []")
    case True
    then show ?thesis by simp
  next
    case False
    then obtain y where y: "y \<in> set new" by (cases new) auto
    have sub: "set new \<subseteq> ?U - set seen"
      using 2 bfs_rev_new_subset[of seen es x] by simp
    have "?U - set (seen @ new) \<subset> ?U - set seen"
      using y sub by auto
    then have "card (?U - set (seen @ new)) < card (?U - set seen)"
      by (intro psubset_card_mono) auto
    then show ?thesis by simp
  qed
qed

text \<open>
  Kahn's algorithm as \<open>topological_generations\<close> runs it and \<open>topological_sort\<close>
  flattens it: the nodes without predecessor start the queue; the first node of the queue
  is emitted, and each of its successors whose last pending predecessor it was (networkx
  counts the in-degree down to zero) joins the end of the queue. In a \<open>DiGraph\<close> a node
  becomes ready once, so the first branch, which keeps the recursion total, is never
  taken there.
\<close>

function topo_loop :: "('a \<times> 'a) list \<Rightarrow> 'a list \<Rightarrow> 'a list \<Rightarrow> 'a list" where
  "topo_loop es [] out = out"
| "topo_loop es (n # queue) out =
     (if n \<in> set out then topo_loop es queue out
      else topo_loop es
             (queue @ filter (\<lambda>c. set (preds es c) \<subseteq> set (out @ [n])) (succs es n))
             (out @ [n]))"
  by pat_completeness auto

termination topo_loop
proof (relation "measures [\<lambda>(es, q, out). card (fst ` set es - set out),
                           \<lambda>(es, q, out). length q]", goal_cases)
  case 1
  show ?case by simp
next
  case (2 es n queue out)
  then show ?case by simp
next
  case (3 es n queue out)
  let ?U = "fst ` set es"
  show ?case
  proof (cases "n \<in> ?U")
    case True
    with 3 have "?U - set (out @ [n]) \<subset> ?U - set out" by auto
    then have "card (?U - set (out @ [n])) < card (?U - set out)"
      by (intro psubset_card_mono) auto
    then show ?thesis by simp
  next
    case False
    then have "succs es n = []"
      by (auto simp: succs_def filter_empty_conv)
    moreover from False have "?U - set (out @ [n]) = ?U - set out" by auto
    ultimately show ?thesis by simp
  qed
qed

text \<open>
  The nodes that \<open>topological_sort\<close> yields before it either ends or raises
  \<open>NetworkXUnfeasible\<close>; it raises, after the last node it could emit, when some node
  was never emitted.
\<close>

definition topological_prefix :: "digraph \<Rightarrow> pyval list" where
  "topological_prefix g =
     topo_loop (edges g) (filter (\<lambda>v. preds (edges g) v = []) (nodes g)) []"

definition topological_complete :: "digraph \<Rightarrow> bool" where
  "topological_complete g = (set (nodes g) \<subseteq> set (topological_prefix g))"

definition topological_sort :: "digraph \<Rightarrow> error + pyval list" where
  "topological_sort g =
     (if topological_complete g then Inr (topological_prefix g)
      else Inl NetworkXUnfeasible)"

text \<open>\<open>is_directed_acyclic_graph\<close> runs the topological sort and reports whether it
  came to its end; every graph of this model is a \<open>DiGraph\<close>, so \<open>is_directed\<close> holds.\<close>

definition is_directed :: "digraph \<Rightarrow> bool" where
  "is_directed g = True"

definition is_directed_acyclic_graph :: "digraph \<Rightarrow> bool" where
  "is_directed_acyclic_graph g = (is_directed g \<and> topological_complete g)"

text \<open>\<open>find_cycle\<close> raises \<open>NetworkXNoCycle\<close> when there is no cycle to report; the
  cycle itself is only printed.\<close>

definition find_cycle :: "digraph \<Rightarrow> error + unit" where
  "find_cycle g = (if topological_complete g then Inl NetworkXNoCycle else Inr ())"

text \<open>
  \<open>is_weakly_connected\<close>: the component of the first node, found by a breadth-first
  search along the edges in both directions, has as many nodes as the graph. A graph
  without nodes is refused.
\<close>

definition swap_edges :: "('a \<times> 'a) list \<Rightarrow> ('a \<times> 'a) list" where
  "swap_edges es = map (\<lambda>e. (snd e, fst e)) es"

definition is_weakly_connected :: "digraph \<Rightarrow> error + bool" where
  "is_weakly_connected g =
     (case nodes g of
        [] \<Rightarrow> Inl NetworkXPointlessConcept
      | s # _ \<Rightarrow>
          Inr (length (bfs_rev (edges g @ swap_edges (edges g)) [s] [s]) = length (nodes g)))"

definition is_tree :: "digraph \<Rightarrow> error + bool" where
  "is_tree g =
     (if nodes g = [] then Inl NetworkXPointlessConcept
      else if int (length (nodes g)) - 1 = int (length (edges g))
           then is_weakly_connected g
           else Inr False)"

section \<open>The topology module\<close>

subsection \<open>Loading and validating\<close>

text \<open>\<open>get_raw_network\<close>: every line is split, and its first two tokens make an edge; a
  line with fewer tokens ends the loop with the \<open>IndexError\<close> of \<open>p[0]\<close> or \<open>p[1]\<close>.\<close>

fun read_edges :: "string list \<Rightarrow> error + (pyval \<times> pyval) list" where
  "read_edges [] = Inr []"
| "read_edges (line # rest) =
     (case py_split line of
        a # b # _ \<Rightarrow>
          (case read_edges rest of
             Inl e \<Rightarrow> Inl e
           | Inr es \<Rightarrow> Inr ((PStr a, PStr b) # es))
      | _ \<Rightarrow> Inl IndexError)"

definition get_raw_network :: "string \<Rightarrow> error + digraph" where
  "get_raw_network content =
     (case read_edges (file_lines content) of
        Inl e \<Rightarrow> Inl e
      | Inr es \<Rightarrow> Inr (add_edges_from empty_graph es))"

text \<open>\<open>check_network\<close>: three tests in this order, each one answering \<open>False\<close> after its
  diagnostics were printed. The diagnostics are calls of networkx that can raise.\<close>

definition check_network :: "digraph \<Rightarrow> error + bool" where
  "check_network net =
     (if \<not> is_directed_acyclic_graph net then
        (case find_cycle net of Inl e \<Rightarrow> Inl e | Inr _ \<Rightarrow> Inr False)
      else if \<not> is_directed net then Inr False
      else
        (case is_tree net of
           Inl e \<Rightarrow> Inl e
         | Inr True \<Rightarrow> Inr True
         | Inr False \<Rightarrow>
             (case is_weakly_connected net of
                Inl e \<Rightarrow> Inl e
              | Inr _ \<Rightarrow> Inr False)))"

text \<open>\<open>get_network\<close> returns the graph, or \<open>None\<close> when the validation fails.\<close>

definition get_network :: "string \<Rightarrow> error + digraph option" where
  "get_network content =
     (case get_raw_network content of
        Inl e \<Rightarrow> Inl e
      | Inr net \<Rightarrow>
          (case check_network net of
             Inl e \<Rightarrow> Inl e
           | Inr ok \<Rightarrow> Inr (if ok then Some net else None)))"

subsection \<open>Dictionaries\<close>

text \<open>A Python \<open>dict\<close> keeps its keys in insertion order: an assignment to a key it has
  replaces the value where it stands, a new key goes to the end.\<close>

type_synonym ('k, 'v) pydict = "('k \<times> 'v) list"

fun dict_set :: "('k, 'v) pydict \<Rightarrow> 'k \<Rightarrow> 'v \<Rightarrow> ('k, 'v) pydict" where
  "dict_set [] k v = [(k, v)]"
| "dict_set ((k', v') # d) k v =
     (if k' = k then (k, v) # d else (k', v') # dict_set d k v)"

definition dict_get :: "('k, 'v) pydict \<Rightarrow> 'k \<Rightarrow> error + 'v" where
  "dict_get d k = (case map_of d k of None \<Rightarrow> Inl KeyError | Some v \<Rightarrow> Inr v)"

definition dict_pop :: "('k, 'v) pydict \<Rightarrow> 'k \<Rightarrow> error + ('v \<times> ('k, 'v) pydict)" where
  "dict_pop d k =
     (case map_of d k of
        None \<Rightarrow> Inl KeyError
      | Some v \<Rightarrow> Inr (v, filter (\<lambda>p. fst p \<noteq> k) d))"

subsection \<open>The gauge dictionary file\<close>

text \<open>The loop of \<open>create_stream_gauge_dictionary\<close>: \<open>gauge[p[0]] = p[1]\<close> for every
  line.\<close>

fun read_gauge :: "string list \<Rightarrow> (pyval, pyval) pydict \<Rightarrow> error + (pyval, pyval) pydict" where
  "read_gauge [] gauge = Inr gauge"
| "read_gauge (line # rest) gauge =
     (case py_split line of
        a # b # _ \<Rightarrow> read_gauge rest (dict_set gauge (PStr a) (PStr b))
      | _ \<Rightarrow> Inl IndexError)"

text \<open>\<open>create_stream_gauge_dictionary\<close> ends after the loop, without a \<open>return\<close>
  statement: the value of the call is \<open>None\<close>, whatever the dictionary holds.\<close>

definition create_stream_gauge_dictionary ::
  "string \<Rightarrow> error + (pyval, pyval) pydict option" where
  "create_stream_gauge_dictionary content =
     (case read_gauge (file_lines content) [] of
        Inl e \<Rightarrow> Inl e
      | Inr gauge \<Rightarrow> Inr None)"

text \<open>The entry that a line of the gauge dictionary file stands for.\<close>

definition gauge_entry :: "string \<Rightarrow> pyval \<times> pyval" where
  "gauge_entry line = (PStr (py_split line ! 0), PStr (py_split line ! 1))"

subsection \<open>Upstream and downstream networks\<close>

text \<open>
  \<open>get_up_streem_network\<close>: the nodes of the reverse breadth-first tree of \<open>node\<close>, then
  a new graph copied from the subgraph on them. The search raises \<open>NetworkXError\<close> for a
  node that the graph does not have (\<open>predecessors\<close> of the source).
\<close>

definition get_up_streem_network :: "digraph \<Rightarrow> pyval \<Rightarrow> error + digraph" where
  "get_up_streem_network net node =
     (if node \<notin> set (nodes net) then Inl NetworkXError
      else Inr (subgraph_copy net (bfs_rev (edges net) [node] [node])))"

text \<open>
  The right operand of the operator \<open>-\<close> on a \<open>set\<close>: \<open>set.__sub__\<close> computes the
  difference when it is a set, and answers \<open>NotImplemented\<close> for any other object; a
  \<open>DiGraph\<close> has no \<open>__rsub__\<close> to take over, so the expression raises \<open>TypeError\<close>.
\<close>

datatype pyobj = SetObj "pyval list" | GraphObj digraph

definition set_sub :: "pyval list \<Rightarrow> pyobj \<Rightarrow> error + pyval list" where
  "set_sub s other =
     (case other of
        SetObj t \<Rightarrow> Inr (filter (\<lambda>x. x \<notin> set t) s)
      | GraphObj _ \<Rightarrow> Inl TypeError)"

text \<open>\<open>get_downstream_network\<close>: the variable \<open>upstream_nodes\<close> holds the graph that
  \<open>get_up_streem_network\<close> returned, and it is this graph that is subtracted from the set
  of the nodes.\<close>

definition get_downstream_network :: "digraph \<Rightarrow> pyval \<Rightarrow> error + digraph" where
  "get_downstream_network net node =
     (if node \<notin> set (nodes net) then Inl NetworkXError
      else
        (case get_up_streem_network net node of
           Inl e \<Rightarrow> Inl e
         | Inr upstream_nodes \<Rightarrow>
             (case set_sub (nodes net) (GraphObj upstream_nodes) of
                Inl e \<Rightarrow> Inl e
              | Inr downstream_nodes \<Rightarrow> Inr (subgraph_copy net downstream_nodes))))"

subsection \<open>Gauges and calibration\<close>

text \<open>\<open>filter_to_calibrate\<close>: for every listed node that the graph still has and that is
  not the outlet, the nodes strictly upstream of it are removed.\<close>

fun filter_to_calibrate :: "digraph \<Rightarrow> pyval list \<Rightarrow> pyval \<Rightarrow> digraph" where
  "filter_to_calibrate net [] outlet = net"
| "filter_to_calibrate net (value # rest) outlet =
     (if value \<in> set (nodes net) \<and> value \<noteq> outlet
      then filter_to_calibrate
             (remove_nodes_from net
                (filter (\<lambda>n. n \<noteq> value) (bfs_rev (edges net) [value] [value])))
             rest outlet
      else filter_to_calibrate net rest outlet)"

text \<open>\<open>dict((v, k) for k, v in gauge.items())\<close>: the gauge of a node; of two gauges at
  one node the later one stays.\<close>

definition reverse_dict :: "('k, 'v) pydict \<Rightarrow> ('v, 'k) pydict" where
  "reverse_dict gauge = foldl (\<lambda>d kv. dict_set d (snd kv) (fst kv)) [] gauge"

text \<open>
  The pruning loop of \<open>get_subgraph\<close>: \<open>value = reversed_dict.pop(key);
  gauge.pop(value)\<close> for every key to remove. The dictionary \<open>gauge\<close> is the caller's
  object, so what was popped before a \<open>KeyError\<close> stays popped: the dictionaries are part
  of the result in either case.
\<close>

fun prune_gauges ::
  "'v list \<Rightarrow> ('v, 'k) pydict \<Rightarrow> ('k, 'v) pydict \<Rightarrow>
   error option \<times> ('v, 'k) pydict \<times> ('k, 'v) pydict" where
  "prune_gauges [] reversed_dict gauge = (None, reversed_dict, gauge)"
| "prune_gauges (key # keys) reversed_dict gauge =
     (case dict_pop reversed_dict key of
        Inl e \<Rightarrow> (Some e, reversed_dict, gauge)
      | Inr (value, reversed_dict') \<Rightarrow>
          (case dict_pop gauge value of
             Inl e \<Rightarrow> (Some e, reversed_dict', gauge)
           | Inr (_, gauge') \<Rightarrow> prune_gauges keys reversed_dict' gauge'))"

text \<open>\<open>nx.set_node_attributes(G, value, name)\<close> with a value that is no dictionary
  gives the attribute to every node; with a dictionary of dictionaries and no name it
  updates the attributes of the nodes named.\<close>

definition set_node_attributes :: "digraph \<Rightarrow> string \<Rightarrow> pyval option \<Rightarrow> digraph" where
  "set_node_attributes g name v =
     g\<lparr>node_attr := (\<lambda>n. if n \<in> set (nodes g) then (node_attr g n)(name \<mapsto> v)
                          else node_attr g n)\<rparr>"

definition update_node ::
  "digraph \<Rightarrow> pyval \<Rightarrow> pyval option \<Rightarrow> pyval option \<Rightarrow> digraph" where
  "update_node g n gauge_value calibrate =
     (if n \<in> set (nodes g)
      then g\<lparr>node_attr := (node_attr g)(n := (node_attr g n)
               (''gauge'' \<mapsto> gauge_value, ''calibrate'' \<mapsto> calibrate))\<rparr>
      else g)"

text \<open>The body of the annotation loop of \<open>get_subgraph\<close> for one node, and the loop
  over the nodes that the topological sort yields.\<close>

definition annotate_node ::
  "digraph \<Rightarrow> (pyval, pyval) pydict \<Rightarrow> (pyval, pyval) pydict \<Rightarrow> pyval \<Rightarrow> pyval \<Rightarrow>
   error + digraph" where
  "annotate_node net_up gauge reversed_dict outlet node =
     (if node \<in> snd ` set gauge then
        (case dict_get reversed_dict node of
           Inl e \<Rightarrow> Inl e
         | Inr g \<Rightarrow>
             Inr (update_node net_up node (Some g)
                    (Some (PStr (if node = outlet then ''True'' else ''False'')))))
      else
        (case predecessors net_up node of
           [] \<Rightarrow> Inr (update_node net_up node None (Some (PStr ''False'')))
         | parent # _ \<Rightarrow>
             (case node_attr net_up parent ''calibrate'' of
                None \<Rightarrow> Inl KeyError
              | Some calibrate \<Rightarrow>
                  (case node_attr net_up parent ''gauge'' of
                     None \<Rightarrow> Inl KeyError
                   | Some g \<Rightarrow> Inr (update_node net_up node g calibrate)))))"

fun annotate_nodes ::
  "pyval list \<Rightarrow> digraph \<Rightarrow> (pyval, pyval) pydict \<Rightarrow> (pyval, pyval) pydict \<Rightarrow> pyval \<Rightarrow>
   error + digraph" where
  "annotate_nodes [] net_up gauge reversed_dict outlet = Inr net_up"
| "annotate_nodes (node # rest) net_up gauge reversed_dict outlet =
     (case annotate_node net_up gauge reversed_dict outlet node of
        Inl e \<Rightarrow> Inl e
      | Inr net_up' \<Rightarrow> annotate_nodes rest net_up' gauge reversed_dict outlet)"

text \<open>
  \<open>get_subgraph\<close>. The result is paired with the gauge dictionary as the call leaves it:
  the dictionary is pruned in the caller's object, also when a later step raises. The
  topological sort is consumed by the loop, so its \<open>NetworkXUnfeasible\<close> comes after the
  nodes it could yield were annotated.
\<close>

definition get_subgraph ::
  "digraph \<Rightarrow> (pyval, pyval) pydict \<Rightarrow> pyval \<Rightarrow> bool \<Rightarrow>
   (error + digraph) \<times> (pyval, pyval) pydict" where
  "get_subgraph net gauge gauge_id is_calibration =
     (case dict_get gauge gauge_id of
        Inl e \<Rightarrow> (Inl e, gauge)
      | Inr outlet \<Rightarrow>
          (case get_up_streem_network net outlet of
             Inl e \<Rightarrow> (Inl e, gauge)
           | Inr net_up \<Rightarrow>
               (let reversed_dict = reverse_dict gauge;
                    keys_to_remove =
                      filter (\<lambda>key. \<not> has_node net_up key) (map fst reversed_dict)
                in case prune_gauges keys_to_remove reversed_dict gauge of
                     (Some e, _, gauge') \<Rightarrow> (Inl e, gauge')
                   | (None, reversed_dict', gauge') \<Rightarrow>
                       (let net_up1 =
                              (if is_calibration
                               then filter_to_calibrate net_up (map fst reversed_dict') outlet
                               else net_up);
                            net_up2 = add_edges_from net_up1 [(outlet, PStr ''0'')];
                            net_up3 = set_node_attributes net_up2 ''gauge'' (Some gauge_id);
                            net_up4 =
                              set_node_attributes net_up3 ''calibrate'' (Some (PStr ''True''))
                        in case annotate_nodes (topological_prefix net_up4) net_up4
                                  gauge' reversed_dict' outlet of
                             Inl e \<Rightarrow> (Inl e, gauge')
                           | Inr net_up5 \<Rightarrow>
                               if topological_complete net_up4 then (Inr net_up5, gauge')
                               else (Inl NetworkXUnfeasible, gauge')))))"

subsection \<open>Objects and references\<close>

text \<open>
  Python passes graphs and dictionaries by reference. Where it matters which object a
  function changes or returns, the objects live in a store, and a function takes and
  returns references: a function that builds its result with \<open>nx.DiGraph(...)\<close> allocates
  a new object, one that calls a mutator of its argument (\<open>remove_nodes_from\<close>, \<open>pop\<close>)
  overwrites the object at the reference it was given.
\<close>

record store =
  graph_at :: "nat \<Rightarrow> digraph option"
  dict_at :: "nat \<Rightarrow> (pyval, pyval) pydict option"
  next_ref :: nat

definition store_ok :: "store \<Rightarrow> bool" where
  "store_ok s = (\<forall>r. next_ref s \<le> r \<longrightarrow> graph_at s r = None \<and> dict_at s r = None)"

definition alloc_graph :: "store \<Rightarrow> digraph \<Rightarrow> nat \<times> store" where
  "alloc_graph s g =
     (next_ref s, s\<lparr>graph_at := (graph_at s)(next_ref s \<mapsto> g), next_ref := Suc (next_ref s)\<rparr>)"

text \<open>\<open>get_up_streem_network\<close> ends with \<open>return nx.DiGraph(net_up)\<close>: a new graph. (A
  reference without graph is no argument that a caller can pass.)\<close>

definition get_up_streem_network_obj ::
  "store \<Rightarrow> nat \<Rightarrow> pyval \<Rightarrow> (error + nat) \<times> store" where
  "get_up_streem_network_obj s net_ref node =
     (case graph_at s net_ref of
        None \<Rightarrow> (Inl TypeError, s)
      | Some net \<Rightarrow>
          (case get_up_streem_network net node of
             Inl e \<Rightarrow> (Inl e, s)
           | Inr g \<Rightarrow> (case alloc_graph s g of (r, s') \<Rightarrow> (Inr r, s'))))"

text \<open>\<open>filter_to_calibrate\<close> calls \<open>net.remove_nodes_from\<close> on its argument and ends
  with \<open>return net\<close>.\<close>

definition filter_to_calibrate_obj ::
  "store \<Rightarrow> nat \<Rightarrow> pyval list \<Rightarrow> pyval \<Rightarrow> (error + nat) \<times> store" where
  "filter_to_calibrate_obj s net_ref ns outlet =
     (case graph_at s net_ref of
        None \<Rightarrow> (Inl TypeError, s)
      | Some net \<Rightarrow>
          (Inr net_ref,
           s\<lparr>graph_at := (graph_at s)(net_ref \<mapsto> filter_to_calibrate net ns outlet)\<rparr>))"

text \<open>\<open>get_subgraph\<close> works on the copy that \<open>get_up_streem_network\<close> returned and pops
  from the dictionary \<open>gauge\<close> of its caller; the graph it returns is that copy.\<close>

definition get_subgraph_obj ::
  "store \<Rightarrow> nat \<Rightarrow> nat \<Rightarrow> pyval \<Rightarrow> bool \<Rightarrow> (error + nat) \<times> store" where
  "get_subgraph_obj s net_ref gauge_ref gauge_id is_calibration =
     (case (graph_at s net_ref, dict_at s gauge_ref) of
        (Some net, Some gauge) \<Rightarrow>
          (case get_subgraph net gauge gauge_id is_calibration of
             (result, gauge') \<Rightarrow>
               (let s1 = s\<lparr>dict_at := (dict_at s)(gauge_ref \<mapsto> gauge')\<rparr>
                in case result of
                     Inl e \<Rightarrow> (Inl e, s1)
                   | Inr g \<Rightarrow> (case alloc_graph s1 g of (r, s2) \<Rightarrow> (Inr r, s2))))
      | _ \<Rightarrow> (Inl TypeError, s))"

subsection \<open>Writing the topology file\<close>

text \<open>\<open>str\<close> of a node identifier, as \<open>csv.writer\<close> applies it to a field that is no
  string: an integer in decimal digits.\<close>

definition digit_char :: "nat \<Rightarrow> char" where
  "digit_char d = char_of (48 + d)"

fun str_nat :: "nat \<Rightarrow> string" where
  "str_nat n = (if n < 10 then [digit_char n] else str_nat (n div 10) @ [digit_char (n mod 10)])"

fun py_str :: "pyval \<Rightarrow> string" where
  "py_str (PStr s) = s"
| "py_str (PInt i) = (if i < 0 then CHR ''-'' # str_nat (nat (- i)) else str_nat (nat i))"

text \<open>
  \<open>csv.writer(f, delimiter=' ')\<close> with the other settings of the \<open>excel\<close> dialect: a
  field that holds the delimiter, the quote character or a character of the line
  terminator is written between double quotes, with its quote characters doubled; the
  fields of a row are joined by the delimiter and ended by \<open>\r\n\<close>. The file is written
  as it is (\<open>os.linesep\<close> is the line feed).
\<close>

definition csv_special :: "char \<Rightarrow> bool" where
  "csv_special c = (c = CHR '' '' \<or> c = CHR 0x22 \<or> c = CHR 0x0D \<or> c = CHR 0x0A)"

definition csv_field :: "string \<Rightarrow> string" where
  "csv_field s =
     (if list_ex csv_special s
      then [CHR 0x22] @ concat (map (\<lambda>c. if c = CHR 0x22 then [c, c] else [c]) s) @ [CHR 0x22]
      else s)"

fun join_fields :: "string list \<Rightarrow> string" where
  "join_fields [] = []"
| "join_fields [f] = f"
| "join_fields (f # fs) = f @ [CHR '' ''] @ join_fields fs"

definition csv_row :: "pyval list \<Rightarrow> string" where
  "csv_row row = join_fields (map (\<lambda>v. csv_field (py_str v)) row) @ [CHR 0x0D, CHR 0x0A]"

text \<open>\<open>write_network\<close>: one row for every node other than the string \<open>'0'\<close>, with the
  first successor of the node, or \<open>"0"\<close> for a node without successor. The result is the
  content of the file.\<close>

definition write_network :: "digraph \<Rightarrow> string" where
  "write_network net =
     concat (map (\<lambda>n. csv_row [n, (case successors net n of [] \<Rightarrow> PStr ''0'' | v # _ \<Rightarrow> v)])
               (filter (\<lambda>n. n \<noteq> PStr ''0'') (nodes net)))"

subsection \<open>Ordering nodes\<close>

text \<open>\<open>list.index\<close>: the first position of an element (\<open>ValueError\<close> for an element
  that the list does not have is raised where it is called).\<close>

fun index_of :: "'a list \<Rightarrow> 'a \<Rightarrow> nat" where
  "index_of [] x = 0"
| "index_of (y # ys) x = (if x = y then 0 else Suc (index_of ys x))"

text \<open>\<open>sort_node\<close>: \<open>sorted\<close> is stable and computes the key of every element before it
  compares any, so a node outside the graph raises the \<open>ValueError\<close> of \<open>index\<close>.\<close>

definition sort_node :: "digraph \<Rightarrow> pyval list \<Rightarrow> error + pyval list" where
  "sort_node net ns =
     (case topological_sort net of
        Inl e \<Rightarrow> Inl e
      | Inr topological_order \<Rightarrow>
          if list_all (\<lambda>x. x \<in> set topological_order) ns
          then Inr (sort_key (index_of topological_order) ns)
          else Inl ValueError)"

section \<open>Notions of the specification\<close>

text \<open>A list is in topological order for the edges when every node stands behind all of
  its predecessors; the list is read from its end.\<close>

fun topo_okr :: "('a \<times> 'a) list \<Rightarrow> 'a list \<Rightarrow> bool" where
  "topo_okr es [] = True"
| "topo_okr es (n # before) = (set (preds es n) \<subseteq> set before \<and> topo_okr es before)"

definition topo_ok :: "('a \<times> 'a) list \<Rightarrow> 'a list \<Rightarrow> bool" where
  "topo_ok es xs = topo_okr es (rev xs)"

text \<open>Weak connectivity: any two nodes are joined by edges taken in either direction.\<close>

definition weakly_connected :: "digraph \<Rightarrow> bool" where
  "weakly_connected g =
     (\<forall>u \<in> set (nodes g). \<forall>v \<in> set (nodes g).
        (u, v) \<in> (set (edges g) \<union> (set (edges g))\<inverse>)\<^sup>*)"

text \<open>The sink convention: every node other than \<open>"0"\<close> has exactly one outgoing edge,
  and \<open>"0"\<close> has none.\<close>

definition sink_convention :: "digraph \<Rightarrow> bool" where
  "sink_convention g =
     (list_all (\<lambda>n. n = PStr ''0'' \<or> length (successors g n) = 1) (nodes g) \<and>
      successors g (PStr ''0'') = [])"

text \<open>A token as a line of a topology file can hold it and \<open>csv.writer\<close> writes it
  unchanged: not empty, without whitespace and without double quote. A token node is a
  string of this kind.\<close>

definition clean_token :: "string \<Rightarrow> bool" where
  "clean_token s = (s \<noteq> [] \<and> list_all (\<lambda>c. \<not> is_space c \<and> c \<noteq> CHR 0x22) s)"

fun token_node :: "pyval \<Rightarrow> bool" where
  "token_node (PStr s) = clean_token s"
| "token_node (PInt i) = False"

text \<open>A directed path, as the list of its nodes: one node at least, and an edge from
  each node to the next.\<close>

fun is_path :: "('a \<times> 'a) list \<Rightarrow> 'a list \<Rightarrow> bool" where
  "is_path es [] = False"
| "is_path es [v] = True"
| "is_path es (u # v # rest) = ((u, v) \<in> set es \<and> is_path es (v # rest))"

text \<open>The nodes whose \<open>calibrate\<close> attribute is the string \<open>'True'\<close>.\<close>

definition calibrated :: "digraph \<Rightarrow> pyval \<Rightarrow> bool" where
  "calibrated g v = (node_attr g v ''calibrate'' = Some (Some (PStr ''True'')))"

text \<open>What the annotation loop has established for a node it has passed: the outlet is
  calibrated, and a node from which a path leads to the outlet has the \<open>calibrate\<close>
  attribute \<open>'False'\<close>.\<close>

definition calibrate_ok :: "(pyval \<times> pyval) list \<Rightarrow> pyval \<Rightarrow> digraph \<Rightarrow> pyval \<Rightarrow> bool" where
  "calibrate_ok es outlet h v =
     ((v = outlet \<longrightarrow> calibrated h v) \<and>
      ((v, outlet) \<in> (set es)\<^sup>+ \<longrightarrow>
         node_attr h v ''calibrate'' = Some (Some (PStr ''False''))))"

text \<open>The network of \<open>get_subgraph\<close> when its annotation loop starts: filtered if asked
  for, with the sink attached and the two default attributes set.\<close>

definition prepared_network ::
  "digraph \<Rightarrow> pyval list \<Rightarrow> pyval \<Rightarrow> pyval \<Rightarrow> bool \<Rightarrow> digraph" where
  "prepared_network net_up keys outlet gauge_id is_calibration =
     set_node_attributes
       (set_node_attributes
          (add_edges_from
             (if is_calibration then filter_to_calibrate net_up keys outlet else net_up)
             [(outlet, PStr ''0'')])
          ''gauge'' (Some gauge_id))
       ''calibrate'' (Some (PStr ''True''))"

text \<open>The two names of a row of the topology file, with the blank between them.\<close>

definition row_body :: "pyval \<times> pyval \<Rightarrow> string" where
  "row_body p = py_str (fst p) @ [CHR '' ''] @ py_str (snd p)"

section \<open>Example networks\<close>

text \<open>The network of the docstrings of \<open>filter_to_calibrate\<close> and \<open>get_subgraph\<close>, and
  of the examples of the specification: the edges \<open>(1,2), (2,3), (3,4), (2,5)\<close>.\<close>

definition example_net :: digraph where
  "example_net =
     add_edges_from empty_graph
       [(PInt 1, PInt 2), (PInt 2, PInt 3), (PInt 3, PInt 4), (PInt 2, PInt 5)]"

text \<open>Two nodes that drain into each other.\<close>

definition cyclic_net :: digraph where
  "cyclic_net = add_edges_from empty_graph [(PInt 1, PInt 2), (PInt 2, PInt 1)]"

text \<open>The gauge dictionary of the docstring of \<open>get_subgraph\<close>:
  \<open>{'g1': 1, 'g2': 2, 'g3': 3}\<close>.\<close>

definition example_gauge :: "(pyval, pyval) pydict" where
  "example_gauge = [(PStr ''g1'', PInt 1), (PStr ''g2'', PInt 2), (PStr ''g3'', PInt 3)]"

text \<open>The subnetwork that \<open>get_subgraph\<close> makes of the example for the gauge \<open>g2\<close>:
  integer nodes draining to the sink \<open>"0"\<close>. Then the same tree with string nodes, as the
  loader reads it from a file, and a tree with a double quote in a node name.\<close>

definition int_tree :: digraph where
  "int_tree = add_edges_from empty_graph [(PInt 1, PInt 2), (PInt 2, PStr ''0'')]"

definition str_tree :: digraph where
  "str_tree = add_edges_from empty_graph [(PStr ''1'', PStr ''2''), (PStr ''2'', PStr ''0'')]"

definition quote_tree :: digraph where
  "quote_tree = add_edges_from empty_graph [(PStr [CHR ''a'', CHR 0x22, CHR ''b''], PStr ''0'')]"

text \<open>Two gauges at node \<open>3\<close>, and a store that holds the example network and this
  dictionary.\<close>

definition shared_gauge :: "(pyval, pyval) pydict" where
  "shared_gauge = [(PStr ''g1'', PInt 3), (PStr ''g3'', PInt 3), (PStr ''g2'', PInt 2)]"

definition example_store :: "(pyval, pyval) pydict \<Rightarrow> store" where
  "example_store gauge =
     \<lparr>graph_at = Map.empty(0 \<mapsto> example_net), dict_at = Map.empty(1 \<mapsto> gauge), next_ref = 2\<rparr>"

section \<open>The graph algorithms of networkx\<close>

subsection \<open>Adjacency\<close>

lemma set_preds: "set (preds es v) = {u. (u, v) \<in> set es}"
  by (auto simp: preds_def image_iff)

lemma set_succs: "set (succs es u) = {v. (u, v) \<in> set es}"
  by (auto simp: succs_def image_iff)

lemma distinct_succs: "distinct es \<Longrightarrow> distinct (succs es u)"
  unfolding succs_def
  by (rule distinct_map[THEN iffD2]) (auto simp: inj_on_def)

lemma wf_digraph_edge_nodes:
  "wf_digraph g \<Longrightarrow> (u, v) \<in> set (edges g) \<Longrightarrow> u \<in> set (nodes g) \<and> v \<in> set (nodes g)"
  by (auto simp: wf_digraph_def list_all_iff)

subsection \<open>Breadth-first search\<close>

lemma bfs_rev_sound:
  "set (bfs_rev es q seen) \<subseteq> set seen \<union> {u. \<exists>x \<in> set q. (u, x) \<in> (set es)\<^sup>*}"
proof (induction es q seen rule: bfs_rev.induct)
  case (1 es seen)
  then show ?case by simp
next
  case (2 es x queue seen)
  define new where "new = remdups (filter (\<lambda>u. u \<notin> set seen) (preds es x))"
  have step: "(y, x) \<in> set es" if "y \<in> set new" for y
    using that by (auto simp: new_def set_preds)
  from "2.IH" [OF new_def]
  have IH: "set (bfs_rev es (queue @ new) (seen @ new))
        \<subseteq> set (seen @ new) \<union> {u. \<exists>x \<in> set (queue @ new). (u, x) \<in> (set es)\<^sup>*}" .
  have "set (bfs_rev es (x # queue) seen) = set (bfs_rev es (queue @ new) (seen @ new))"
    by (simp add: new_def Let_def)
  also have "\<dots> \<subseteq> set seen \<union> {u. \<exists>z \<in> set (x # queue). (u, z) \<in> (set es)\<^sup>*}"
  proof
    fix u assume "u \<in> set (bfs_rev es (queue @ new) (seen @ new))"
    with IH consider "u \<in> set seen" | "u \<in> set new"
      | z where "z \<in> set queue" "(u, z) \<in> (set es)\<^sup>*"
      | z where "z \<in> set new" "(u, z) \<in> (set es)\<^sup>*"
      by auto
    then show "u \<in> set seen \<union> {u. \<exists>z \<in> set (x # queue). (u, z) \<in> (set es)\<^sup>*}"
    proof cases
      case 1 then show ?thesis by simp
    next
      case 2
      then have "(u, x) \<in> (set es)\<^sup>*" using step by blast
      then show ?thesis by auto
    next
      case 3 then show ?thesis by auto
    next
      case 4
      then have "(u, x) \<in> (set es)\<^sup>*" using step by (meson rtrancl.rtrancl_into_rtrancl)
      then show ?thesis by auto
    qed
  qed
  finally show ?case .
qed

lemma bfs_rev_closed:
  assumes "set q \<subseteq> set seen"
    and "\<forall>v \<in> set seen - set q. set (preds es v) \<subseteq> set seen"
  shows "set seen \<subseteq> set (bfs_rev es q seen) \<and>
         (\<forall>v \<in> set (bfs_rev es q seen). set (preds es v) \<subseteq> set (bfs_rev es q seen))"
  using assms
proof (induction es q seen rule: bfs_rev.induct)
  case (1 es seen)
  then show ?case by simp
next
  case (2 es x queue seen)
  define new where "new = remdups (filter (\<lambda>u. u \<notin> set seen) (preds es x))"
  have px: "set (preds es x) \<subseteq> set (seen @ new)"
    by (auto simp: new_def)
  have a: "set (queue @ new) \<subseteq> set (seen @ new)"
    using "2.prems"(1) by auto
  have b: "\<forall>v \<in> set (seen @ new) - set (queue @ new). set (preds es v) \<subseteq> set (seen @ new)"
  proof
    fix v assume v: "v \<in> set (seen @ new) - set (queue @ new)"
    show "set (preds es v) \<subseteq> set (seen @ new)"
    proof (cases "v = x")
      case True
      with px show ?thesis by simp
    next
      case False
      with v have "v \<in> set seen - set (x # queue)" by auto
      with "2.prems"(2) have "set (preds es v) \<subseteq> set seen" by blast
      then show ?thesis by auto
    qed
  qed
  from "2.IH" [OF new_def a b]
  have "set (seen @ new) \<subseteq> set (bfs_rev es (queue @ new) (seen @ new)) \<and>
        (\<forall>v \<in> set (bfs_rev es (queue @ new) (seen @ new)).
            set (preds es v) \<subseteq> set (bfs_rev es (queue @ new) (seen @ new)))" .
  moreover have "bfs_rev es (x # queue) seen = bfs_rev es (queue @ new) (seen @ new)"
    by (simp add: new_def Let_def)
  ultimately show ?case by auto
qed

lemma bfs_rev_distinct:
  "distinct seen \<Longrightarrow> distinct (bfs_rev es q seen)"
proof (induction es q seen rule: bfs_rev.induct)
  case (1 es seen)
  then show ?case by simp
next
  case (2 es x queue seen)
  define new where "new = remdups (filter (\<lambda>u. u \<notin> set seen) (preds es x))"
  have "distinct (seen @ new)"
    using "2.prems" by (auto simp: new_def)
  from "2.IH" [OF new_def this] show ?case
    by (simp add: new_def Let_def)
qed

lemma bfs_rev_reach:
  "set (bfs_rev es [s] [s]) = {u. (u, s) \<in> (set es)\<^sup>*}"
proof
  show "set (bfs_rev es [s] [s]) \<subseteq> {u. (u, s) \<in> (set es)\<^sup>*}"
    using bfs_rev_sound [of es "[s]" "[s]"] by auto
next
  have c: "set [s] \<subseteq> set (bfs_rev es [s] [s]) \<and>
           (\<forall>v \<in> set (bfs_rev es [s] [s]). set (preds es v) \<subseteq> set (bfs_rev es [s] [s]))"
    by (rule bfs_rev_closed) auto
  show "{u. (u, s) \<in> (set es)\<^sup>*} \<subseteq> set (bfs_rev es [s] [s])"
  proof
    fix u assume "u \<in> {u. (u, s) \<in> (set es)\<^sup>*}"
    then have "(u, s) \<in> (set es)\<^sup>*" by simp
    then show "u \<in> set (bfs_rev es [s] [s])"
    proof (induction rule: converse_rtrancl_induct)
      case base
      with c show ?case by simp
    next
      case (step y z)
      then have "y \<in> set (preds es z)" by (simp add: set_preds)
      with step c show ?case by blast
    qed
  qed
qed

subsection \<open>Topological order\<close>

lemma index_of_less: "x \<in> set xs \<Longrightarrow> index_of xs x < length xs"
  by (induction xs) auto

lemma index_of_append_in: "x \<in> set xs \<Longrightarrow> index_of (xs @ ys) x = index_of xs x"
  by (induction xs) auto

lemma index_of_append_notin:
  "x \<notin> set xs \<Longrightarrow> index_of (xs @ ys) x = length xs + index_of ys x"
  by (induction xs) auto

lemma topo_ok_Nil: "topo_ok es []"
  by (simp add: topo_ok_def)

lemma topo_ok_snoc:
  "topo_ok es (xs @ [n]) = (set (preds es n) \<subseteq> set xs \<and> topo_ok es xs)"
  by (simp add: topo_ok_def)

lemma topo_ok_preds_in:
  "topo_ok es xs \<Longrightarrow> v \<in> set xs \<Longrightarrow> set (preds es v) \<subseteq> set xs"
proof (induction xs rule: rev_induct)
  case Nil
  then show ?case by simp
next
  case (snoc n xs)
  then show ?case by (auto simp: topo_ok_snoc)
qed

lemma topo_okr_append: "topo_okr es (a @ b) \<Longrightarrow> topo_okr es b"
  by (induction a) auto

lemma topo_ok_mid: "topo_ok es (pre @ n # rest) \<Longrightarrow> set (preds es n) \<subseteq> set pre"
proof -
  assume "topo_ok es (pre @ n # rest)"
  then have "topo_okr es (rev rest @ n # rev pre)" by (simp add: topo_ok_def)
  then have "topo_okr es (n # rev pre)" by (rule topo_okr_append)
  then show ?thesis by simp
qed

lemma topo_ok_edge_index:
  "topo_ok es xs \<Longrightarrow> (u, v) \<in> set es \<Longrightarrow> v \<in> set xs \<Longrightarrow>
   u \<in> set xs \<and> index_of xs u < index_of xs v"
proof (induction xs rule: rev_induct)
  case Nil
  then show ?case by simp
next
  case (snoc n xs)
  from snoc.prems(1) have pn: "set (preds es n) \<subseteq> set xs" and ok: "topo_ok es xs"
    by (simp_all add: topo_ok_snoc)
  show ?case
  proof (cases "v \<in> set xs")
    case True
    from snoc.IH [OF ok snoc.prems(2) True] True show ?thesis
      by (simp add: index_of_append_in)
  next
    case False
    with snoc.prems(3) have vn: "v = n" by simp
    with snoc.prems(2) pn have u: "u \<in> set xs" by (auto simp: set_preds)
    then have "index_of (xs @ [n]) u < length xs"
      by (simp add: index_of_append_in index_of_less)
    moreover from False vn have "index_of (xs @ [n]) v = length xs"
      by (simp add: index_of_append_notin)
    ultimately show ?thesis using u by simp
  qed
qed

lemma topo_loop_inv:
  assumes "distinct es"
    and "distinct (out @ q)"
    and "\<forall>v \<in> set q. set (preds es v) \<subseteq> set out"
    and "topo_ok es out"
    and "\<forall>v \<in> N. set (preds es v) \<subseteq> set out \<longrightarrow> v \<in> set out \<union> set q"
    and "set q \<subseteq> N" and "set out \<subseteq> N" and "snd ` set es \<subseteq> N"
  shows "distinct (topo_loop es q out) \<and> topo_ok es (topo_loop es q out) \<and>
         (\<forall>v \<in> N. set (preds es v) \<subseteq> set (topo_loop es q out) \<longrightarrow> v \<in> set (topo_loop es q out)) \<and>
         set (topo_loop es q out) \<subseteq> N"
  using assms
proof (induction es q out rule: topo_loop.induct)
  case (1 es out)
  then show ?case by simp
next
  case (2 es n queue out)
  define ready where
    "ready = filter (\<lambda>c. set (preds es c) \<subseteq> set (out @ [n])) (succs es n)"
  from "2.prems"(2) have n_out: "n \<notin> set out" and n_q: "n \<notin> set queue"
    and d_out: "distinct out" and d_q: "distinct queue"
    and disj: "set out \<inter> set queue = {}"
    by auto
  have ready_edge: "(n, c) \<in> set es" if "c \<in> set ready" for c
    using that by (auto simp: ready_def set_succs)
  have ready_new: "c \<notin> set out \<and> c \<noteq> n \<and> c \<notin> set queue" if "c \<in> set ready" for c
  proof -
    from ready_edge [OF that] have np: "n \<in> set (preds es c)" by (simp add: set_preds)
    have "c \<notin> set out"
      using topo_ok_preds_in [OF "2.prems"(4), of c] np n_out by auto
    moreover have "c \<notin> set (n # queue)"
      using "2.prems"(3) np n_out by auto
    ultimately show ?thesis by simp
  qed
  have d_ready: "distinct ready"
    unfolding ready_def using distinct_succs [OF "2.prems"(1)] by simp
  have a2: "distinct ((out @ [n]) @ queue @ ready)"
    using d_out d_q d_ready n_out n_q disj ready_new by auto
  have a3: "\<forall>v \<in> set (queue @ ready). set (preds es v) \<subseteq> set (out @ [n])"
    using "2.prems"(3) by (auto simp: ready_def)
  have a4: "topo_ok es (out @ [n])"
    using "2.prems"(3,4) by (simp add: topo_ok_snoc)
  have a5: "\<forall>v \<in> N. set (preds es v) \<subseteq> set (out @ [n]) \<longrightarrow>
                v \<in> set (out @ [n]) \<union> set (queue @ ready)"
  proof (intro ballI impI)
    fix v assume v: "v \<in> N" and p: "set (preds es v) \<subseteq> set (out @ [n])"
    show "v \<in> set (out @ [n]) \<union> set (queue @ ready)"
    proof (cases "set (preds es v) \<subseteq> set out")
      case True
      with "2.prems"(5) v show ?thesis by auto
    next
      case False
      with p have "n \<in> set (preds es v)" by auto
      then have "v \<in> set (succs es n)" by (simp add: set_preds set_succs)
      with p have "v \<in> set ready" by (simp add: ready_def)
      then show ?thesis by simp
    qed
  qed
  have a6: "set (queue @ ready) \<subseteq> N"
  proof -
    have "set ready \<subseteq> snd ` set es"
      using ready_edge by force
    with "2.prems"(6,8) show ?thesis by auto
  qed
  have a7: "set (out @ [n]) \<subseteq> N"
    using "2.prems"(6,7) by auto
  have eq: "topo_loop es (n # queue) out = topo_loop es (queue @ ready) (out @ [n])"
    using n_out by (simp add: ready_def)
  from "2.IH"(2) [OF n_out "2.prems"(1) a2 [unfolded ready_def] a3 [unfolded ready_def] a4
      a5 [unfolded ready_def] a6 [unfolded ready_def] a7 "2.prems"(8)]
  show ?case unfolding eq ready_def .
qed

lemma topological_prefix_props:
  assumes "wf_digraph g"
  shows "distinct (topological_prefix g)"
    and "topo_ok (edges g) (topological_prefix g)"
    and "set (topological_prefix g) \<subseteq> set (nodes g)"
    and "\<And>v. v \<in> set (nodes g) \<Longrightarrow>
           set (preds (edges g) v) \<subseteq> set (topological_prefix g) \<Longrightarrow>
           v \<in> set (topological_prefix g)"
proof -
  let ?q = "filter (\<lambda>v. preds (edges g) v = []) (nodes g)"
  have "distinct (topo_loop (edges g) ?q []) \<and> topo_ok (edges g) (topo_loop (edges g) ?q []) \<and>
     (\<forall>v \<in> set (nodes g). set (preds (edges g) v) \<subseteq> set (topo_loop (edges g) ?q [])
          \<longrightarrow> v \<in> set (topo_loop (edges g) ?q [])) \<and>
     set (topo_loop (edges g) ?q []) \<subseteq> set (nodes g)"
  proof (rule topo_loop_inv)
    show "distinct (edges g)" using assms by (simp add: wf_digraph_def)
    show "distinct ([] @ ?q)" using assms by (simp add: wf_digraph_def)
    show "\<forall>v \<in> set ?q. set (preds (edges g) v) \<subseteq> set []" by simp
    show "topo_ok (edges g) []" by (rule topo_ok_Nil)
    show "\<forall>v \<in> set (nodes g). set (preds (edges g) v) \<subseteq> set [] \<longrightarrow> v \<in> set [] \<union> set ?q"
      by simp
    show "set ?q \<subseteq> set (nodes g)" by simp
    show "set [] \<subseteq> set (nodes g)" by simp
    show "snd ` set (edges g) \<subseteq> set (nodes g)"
      using wf_digraph_edge_nodes [OF assms] by auto
  qed
  then show "distinct (topological_prefix g)"
    and "topo_ok (edges g) (topological_prefix g)"
    and "set (topological_prefix g) \<subseteq> set (nodes g)"
    and "\<And>v. v \<in> set (nodes g) \<Longrightarrow>
           set (preds (edges g) v) \<subseteq> set (topological_prefix g) \<Longrightarrow>
           v \<in> set (topological_prefix g)"
    by (auto simp: topological_prefix_def)
qed

lemma acyclic_topological_complete:
  assumes "wf_digraph g" and "acyclic (set (edges g))"
  shows "topological_complete g"
proof (rule ccontr)
  assume "\<not> topological_complete g"
  then obtain x where x: "x \<in> set (nodes g) - set (topological_prefix g)"
    by (auto simp: topological_complete_def)
  have "wf (set (edges g))"
    using assms(2) by (intro finite_acyclic_wf) auto
  from wfE_min [OF this x]
  obtain z where z: "z \<in> set (nodes g) - set (topological_prefix g)"
    and m: "\<And>y. (y, z) \<in> set (edges g) \<Longrightarrow> y \<notin> set (nodes g) - set (topological_prefix g)"
    by blast
  have "set (preds (edges g) z) \<subseteq> set (topological_prefix g)"
    using m wf_digraph_edge_nodes [OF assms(1)] by (auto simp: set_preds)
  with topological_prefix_props(4) [OF assms(1), of z] z show False by auto
qed

lemma topological_complete_edge_index:
  assumes "wf_digraph g" and "topological_complete g" and "(u, v) \<in> set (edges g)"
  shows "index_of (topological_prefix g) u < index_of (topological_prefix g) v"
proof -
  from wf_digraph_edge_nodes [OF assms(1,3)] assms(2)
  have "v \<in> set (topological_prefix g)" by (auto simp: topological_complete_def)
  with topo_ok_edge_index [OF topological_prefix_props(2) [OF assms(1)] assms(3)]
  show ?thesis by simp
qed

lemma topological_complete_path_index:
  assumes "wf_digraph g" and "topological_complete g" and "(u, v) \<in> (set (edges g))\<^sup>+"
  shows "index_of (topological_prefix g) u < index_of (topological_prefix g) v"
  using assms(3)
proof (induction rule: trancl_induct)
  case (base y)
  then show ?case using topological_complete_edge_index [OF assms(1,2)] by simp
next
  case (step y z)
  with topological_complete_edge_index [OF assms(1,2) step.hyps(2)] show ?case by simp
qed

lemma topological_complete_acyclic:
  assumes "wf_digraph g" and "topological_complete g"
  shows "acyclic (set (edges g))"
proof (rule acyclicI, rule allI, rule notI)
  fix x assume "(x, x) \<in> (set (edges g))\<^sup>+"
  from topological_complete_path_index [OF assms this] show False by simp
qed

lemma topological_complete_iff:
  "wf_digraph g \<Longrightarrow> topological_complete g = acyclic (set (edges g))"
  using acyclic_topological_complete topological_complete_acyclic by blast

subsection \<open>Weak connectivity\<close>

lemma set_swap_edges: "set (swap_edges es) = (set es)\<inverse>"
  by (force simp: swap_edges_def)

lemma sym_closure_rtrancl:
  "(u, v) \<in> (E \<union> E\<inverse>)\<^sup>* \<Longrightarrow> (v, u) \<in> (E \<union> E\<inverse>)\<^sup>*"
proof -
  assume a: "(u, v) \<in> (E \<union> E\<inverse>)\<^sup>*"
  have "sym (E \<union> E\<inverse>)" by (auto simp: sym_def)
  then have "sym ((E \<union> E\<inverse>)\<^sup>*)" by (rule sym_rtrancl)
  with a show ?thesis by (auto dest: symD)
qed

lemma weak_reach_in_nodes:
  assumes "wf_digraph g" and "s \<in> set (nodes g)"
    and "(u, s) \<in> (set (edges g) \<union> (set (edges g))\<inverse>)\<^sup>*"
  shows "u \<in> set (nodes g)"
  using assms(3,2)
proof (induction rule: converse_rtrancl_induct)
  case base
  then show ?case by simp
next
  case (step y z)
  then show ?case using wf_digraph_edge_nodes [OF assms(1)] by auto
qed

lemma is_weakly_connected_iff:
  assumes "wf_digraph g" and "nodes g \<noteq> []"
  shows "is_weakly_connected g = Inr (weakly_connected g)"
proof -
  from assms(2) obtain s rest where n: "nodes g = s # rest" by (cases "nodes g") auto
  let ?S = "set (edges g) \<union> (set (edges g))\<inverse>"
  let ?R = "bfs_rev (edges g @ swap_edges (edges g)) [s] [s]"
  have s: "s \<in> set (nodes g)" using n by simp
  have "set ?R = {u. (u, s) \<in> (set (edges g @ swap_edges (edges g)))\<^sup>*}"
    by (rule bfs_rev_reach)
  then have R: "set ?R = {u. (u, s) \<in> ?S\<^sup>*}"
    by (simp only: set_append set_swap_edges)
  have dR: "distinct ?R" by (rule bfs_rev_distinct) simp
  have sub: "set ?R \<subseteq> set (nodes g)"
    unfolding R using weak_reach_in_nodes [OF assms(1) s] by auto
  have dn: "distinct (nodes g)" using assms(1) by (simp add: wf_digraph_def)
  have "(length ?R = length (nodes g)) = (set ?R = set (nodes g))"
  proof
    assume "length ?R = length (nodes g)"
    then have "card (set ?R) = card (set (nodes g))"
      using dR dn by (simp add: distinct_card)
    with sub show "set ?R = set (nodes g)"
      by (intro card_subset_eq) auto
  next
    assume "set ?R = set (nodes g)"
    then have "card (set ?R) = card (set (nodes g))" by simp
    then show "length ?R = length (nodes g)"
      using dR dn by (simp add: distinct_card)
  qed
  also have "\<dots> = weakly_connected g"
  proof
    assume e: "set ?R = set (nodes g)"
    show "weakly_connected g"
      unfolding weakly_connected_def
    proof (intro ballI)
      fix u v assume "u \<in> set (nodes g)" "v \<in> set (nodes g)"
      with e R have "(u, s) \<in> ?S\<^sup>*" "(v, s) \<in> ?S\<^sup>*" by auto
      then show "(u, v) \<in> ?S\<^sup>*"
        using sym_closure_rtrancl [of v s "set (edges g)"] by (meson rtrancl_trans)
    qed
  next
    assume "weakly_connected g"
    then have "set (nodes g) \<subseteq> set ?R"
      unfolding R weakly_connected_def using s by auto
    with sub show "set ?R = set (nodes g)" by auto
  qed
  finally show ?thesis by (simp add: is_weakly_connected_def n)
qed

subsection \<open>The graph operations keep the class invariant\<close>

lemma distinct_concat_pairs:
  "distinct us \<Longrightarrow> (\<And>u. distinct (h u)) \<Longrightarrow>
   distinct (concat (map (\<lambda>u. map (\<lambda>v. (u, v)) (h u)) us))"
  by (induction us) (auto simp: distinct_map inj_on_def)

lemma subgraph_copy_nodes:
  "nodes (subgraph_copy g ns) = filter (\<lambda>n. n \<in> set ns) (nodes g)"
  by (simp add: subgraph_copy_def Let_def)

lemma subgraph_copy_edges:
  "set (edges (subgraph_copy g ns)) =
     {(u, v). (u, v) \<in> set (edges g) \<and> u \<in> set (nodes g) \<and> u \<in> set ns \<and>
              v \<in> set (nodes g) \<and> v \<in> set ns}"
  by (auto simp: subgraph_copy_def Let_def successors_def set_succs)

lemma wf_subgraph_copy:
  assumes "wf_digraph g"
  shows "wf_digraph (subgraph_copy g ns)"
proof -
  let ?keep = "filter (\<lambda>n. n \<in> set ns) (nodes g)"
  have d: "distinct ?keep" using assms by (simp add: wf_digraph_def)
  have "distinct (concat (map (\<lambda>u. map (\<lambda>v. (u, v))
          (filter (\<lambda>v. v \<in> set ?keep) (successors g u))) ?keep))"
  proof (rule distinct_concat_pairs [OF d])
    fix u show "distinct (filter (\<lambda>v. v \<in> set ?keep) (successors g u))"
      using assms distinct_succs [of "edges g" u]
      by (simp add: wf_digraph_def successors_def)
  qed
  then have "distinct (edges (subgraph_copy g ns))"
    by (simp add: subgraph_copy_def Let_def)
  moreover have "distinct (nodes (subgraph_copy g ns))"
    using d by (simp add: subgraph_copy_nodes)
  moreover have "\<forall>e \<in> set (edges (subgraph_copy g ns)).
      fst e \<in> set (nodes (subgraph_copy g ns)) \<and> snd e \<in> set (nodes (subgraph_copy g ns))"
    by (auto simp: subgraph_copy_edges subgraph_copy_nodes)
  ultimately show ?thesis by (simp add: wf_digraph_def list_all_iff)
qed

lemma wf_remove_nodes_from:
  "wf_digraph g \<Longrightarrow> wf_digraph (remove_nodes_from g ns)"
  by (auto simp: wf_digraph_def remove_nodes_from_def list_all_iff)

lemma wf_filter_to_calibrate:
  "wf_digraph g \<Longrightarrow> wf_digraph (filter_to_calibrate g vs outlet)"
  by (induction g vs outlet rule: filter_to_calibrate.induct)
     (simp_all add: wf_remove_nodes_from)

lemma add_node_nodes: "set (nodes (add_node g n)) = insert n (set (nodes g))"
  by (auto simp: add_node_def)

lemma add_node_edges: "edges (add_node g n) = edges g"
  by (simp add: add_node_def)

lemma wf_add_node: "wf_digraph g \<Longrightarrow> wf_digraph (add_node g n)"
  by (auto simp: wf_digraph_def add_node_def list_all_iff)

lemma add_edge_nodes:
  "set (nodes (add_edge g e)) = insert (fst e) (insert (snd e) (set (nodes g)))"
  by (auto simp: add_edge_def Let_def add_node_nodes)

lemma add_edge_edges: "set (edges (add_edge g e)) = insert e (set (edges g))"
  by (auto simp: add_edge_def add_node_def Let_def)

lemma wf_add_edge:
  assumes "wf_digraph g"
  shows "wf_digraph (add_edge g e)"
proof -
  let ?g = "add_node (add_node g (fst e)) (snd e)"
  have w: "wf_digraph ?g" using assms by (simp add: wf_add_node)
  have n: "fst e \<in> set (nodes ?g)" "snd e \<in> set (nodes ?g)"
    by (simp_all add: add_node_nodes)
  show ?thesis
    using w n by (auto simp: add_edge_def Let_def wf_digraph_def list_all_iff)
qed

lemma wf_add_edges_from: "wf_digraph g \<Longrightarrow> wf_digraph (add_edges_from g es)"
  unfolding add_edges_from_def
  by (induction es arbitrary: g) (simp_all add: wf_add_edge)

lemma add_edges_from_nodes:
  "set (nodes (add_edges_from g es)) = set (nodes g) \<union> fst ` set es \<union> snd ` set es"
  unfolding add_edges_from_def
  by (induction es arbitrary: g) (auto simp: add_edge_nodes)

lemma add_edges_from_edges: "set (edges (add_edges_from g es)) = set (edges g) \<union> set es"
  unfolding add_edges_from_def
  by (induction es arbitrary: g) (simp_all add: add_edge_edges)

lemma set_node_attributes_struct:
  "nodes (set_node_attributes g name v) = nodes g"
  "edges (set_node_attributes g name v) = edges g"
  by (simp_all add: set_node_attributes_def)

lemma wf_set_node_attributes:
  "wf_digraph g \<Longrightarrow> wf_digraph (set_node_attributes g name v)"
  by (simp add: wf_digraph_def set_node_attributes_struct)

lemma update_node_struct:
  "nodes (update_node g n a b) = nodes g"
  "edges (update_node g n a b) = edges g"
  by (simp_all add: update_node_def)

lemma update_node_attr_other:
  "v \<noteq> n \<Longrightarrow> node_attr (update_node g n a b) v = node_attr g v"
  by (simp add: update_node_def)

lemma update_node_attr_calibrate:
  "n \<in> set (nodes g) \<Longrightarrow> node_attr (update_node g n a b) n ''calibrate'' = Some b"
  by (simp add: update_node_def)

subsection \<open>The example networks\<close>

lemma example_net_eval:
  "nodes example_net = [PInt 1, PInt 2, PInt 3, PInt 4, PInt 5]"
  "edges example_net = [(PInt 1, PInt 2), (PInt 2, PInt 3), (PInt 3, PInt 4), (PInt 2, PInt 5)]"
  by (simp_all add: example_net_def add_edges_from_def add_edge_def add_node_def empty_graph_def)

lemma cyclic_net_eval:
  "nodes cyclic_net = [PInt 1, PInt 2]"
  "edges cyclic_net = [(PInt 1, PInt 2), (PInt 2, PInt 1)]"
  by (simp_all add: cyclic_net_def add_edges_from_def add_edge_def add_node_def empty_graph_def)

lemma str_tree_eval:
  "nodes str_tree = [PStr ''1'', PStr ''2'', PStr ''0'']"
  "edges str_tree = [(PStr ''1'', PStr ''2''), (PStr ''2'', PStr ''0'')]"
  by (simp_all add: str_tree_def add_edges_from_def add_edge_def add_node_def empty_graph_def)

lemma int_tree_eval:
  "nodes int_tree = [PInt 1, PInt 2, PStr ''0'']"
  "edges int_tree = [(PInt 1, PInt 2), (PInt 2, PStr ''0'')]"
  by (simp_all add: int_tree_def add_edges_from_def add_edge_def add_node_def empty_graph_def)

lemma wf_example_net: "wf_digraph example_net"
  by (simp add: wf_digraph_def example_net_eval)

lemma wf_cyclic_net: "wf_digraph cyclic_net"
  by (simp add: wf_digraph_def cyclic_net_eval)

lemma topo_example: "topological_prefix example_net = [PInt 1, PInt 2, PInt 3, PInt 5, PInt 4]"
  by (simp add: topological_prefix_def example_net_eval preds_def succs_def)

lemma topo_cyclic: "topological_prefix cyclic_net = []"
  by (simp add: topological_prefix_def cyclic_net_eval preds_def succs_def)

lemma check_example: "check_network example_net = Inr True"
  by (simp add: check_network_def is_directed_acyclic_graph_def is_directed_def
      topological_complete_def topo_example is_tree_def is_weakly_connected_def
      example_net_eval swap_edges_def preds_def)

section \<open>The topology module\<close>

subsection \<open>Loading\<close>

lemma read_edges_short_line:
  "l \<in> set ls \<Longrightarrow> length (py_split l) < 2 \<Longrightarrow> read_edges ls = Inl IndexError"
proof (induction ls)
  case Nil
  then show ?case by simp
next
  case (Cons a ls)
  show ?case
  proof (cases "length (py_split a) < 2")
    case True
    then show ?thesis by (auto split: list.splits)
  next
    case False
    with Cons have "read_edges ls = Inl IndexError" by auto
    then show ?thesis by (auto split: list.splits)
  qed
qed

text \<open>Every graph that the loader returns satisfies the class invariant.\<close>

lemma get_raw_network_wf: "get_raw_network content = Inr g \<Longrightarrow> wf_digraph g"
proof -
  assume a: "get_raw_network content = Inr g"
  have "wf_digraph empty_graph" by (simp add: wf_digraph_def empty_graph_def)
  then have "wf_digraph (add_edges_from empty_graph es)" for es
    by (rule wf_add_edges_from)
  with a show ?thesis
    by (auto simp: get_raw_network_def split: sum.splits)
qed

text \<open>
  C4: a topology file with a line of fewer than two tokens makes \<open>get_raw_network\<close>, and
  with it \<open>get_network\<close>, raise (the \<open>IndexError\<close> of the missing token): no graph is
  returned, whatever the lines before the short one hold.
\<close>

theorem malformed_line_raises:
  assumes "l \<in> set (file_lines content)" and "length (py_split l) < 2"
  shows "get_raw_network content = Inl IndexError \<and> get_network content = Inl IndexError"
  using assms read_edges_short_line
  by (auto simp: get_raw_network_def get_network_def)

theorem malformed_line_raises_witness:
  "''3'' @ [CHR 0x0A] \<in> set (file_lines (''1 2'' @ [CHR 0x0A] @ ''3'' @ [CHR 0x0A]))
   \<and> length (py_split (''3'' @ [CHR 0x0A])) < 2
   \<and> get_raw_network (''1 2'' @ [CHR 0x0A] @ ''3'' @ [CHR 0x0A]) = Inl IndexError
   \<and> get_network (''1 2'' @ [CHR 0x0A] @ ''3'' @ [CHR 0x0A]) = Inl IndexError"
proof -
  have a: "''3'' @ [CHR 0x0A] \<in> set (file_lines (''1 2'' @ [CHR 0x0A] @ ''3'' @ [CHR 0x0A]))"
    by (simp add: file_lines_def)
  have b: "length (py_split (''3'' @ [CHR 0x0A])) < 2"
    by (simp add: py_split_def is_space_def)
  show ?thesis using a b malformed_line_raises [OF a b] by simp
qed

subsection \<open>Validation\<close>

text \<open>
  C10: on a graph without nodes, as the loader makes it from an empty file,
  \<open>check_network\<close> gives no verdict: the \<open>is_tree\<close> test raises
  \<open>NetworkXPointlessConcept\<close>, and \<open>get_network\<close> on the empty file raises with it
  instead of returning \<open>None\<close>.
\<close>

theorem check_network_no_nodes_raises:
  assumes "wf_digraph g" and "nodes g = []"
  shows "check_network g = Inl NetworkXPointlessConcept \<and>
         get_raw_network [] = Inr empty_graph \<and>
         get_network [] = Inl NetworkXPointlessConcept"
proof -
  from assms have e: "edges g = []"
    by (cases "edges g") (auto simp: wf_digraph_def)
  have c: "check_network h = Inl NetworkXPointlessConcept"
    if "nodes h = []" "edges h = []" for h :: digraph
    using that
    by (simp add: check_network_def is_directed_acyclic_graph_def is_directed_def
        topological_complete_def is_tree_def)
  have r: "get_raw_network [] = Inr empty_graph"
    by (simp add: get_raw_network_def file_lines_def add_edges_from_def)
  have "get_network [] = Inl NetworkXPointlessConcept"
    by (simp add: get_network_def r c empty_graph_def)
  with c [OF assms(2) e] r show ?thesis by simp
qed

theorem check_network_no_nodes_raises_witness:
  "wf_digraph empty_graph \<and> nodes empty_graph = [] \<and>
   check_network empty_graph = Inl NetworkXPointlessConcept \<and>
   get_network [] = Inl NetworkXPointlessConcept"
proof -
  have a: "wf_digraph empty_graph" by (simp add: wf_digraph_def empty_graph_def)
  have b: "nodes empty_graph = []" by (simp add: empty_graph_def)
  show ?thesis using a b check_network_no_nodes_raises [OF a b] by simp
qed

text \<open>
  C3: on a \<open>DiGraph\<close>, \<open>check_network\<close> answers \<open>True\<close> exactly when the graph is
  acyclic, directed, weakly connected and has one edge less than it has nodes (a graph
  without nodes has no verdict, and does not have \<open>-1\<close> edges).
\<close>

theorem check_network_true_iff:
  assumes "wf_digraph net"
  shows "(check_network net = Inr True) =
         (acyclic (set (edges net)) \<and> is_directed net \<and> weakly_connected net \<and>
          int (card (set (edges net))) = int (card (set (nodes net))) - 1)"
proof -
  note tc = topological_complete_iff [OF assms]
  have dag: "is_directed_acyclic_graph net = acyclic (set (edges net))"
    by (simp add: is_directed_acyclic_graph_def is_directed_def tc)
  have cn: "card (set (nodes net)) = length (nodes net)"
    and ce: "card (set (edges net)) = length (edges net)"
    using assms by (simp_all add: wf_digraph_def distinct_card)
  show ?thesis
  proof (cases "nodes net = []")
    case True
    then show ?thesis
      by (simp add: check_network_def is_tree_def find_cycle_def is_directed_def
          split: sum.splits)
  next
    case False
    note wc = is_weakly_connected_iff [OF assms False]
    show ?thesis
      using False
      by (auto simp: check_network_def dag is_tree_def wc find_cycle_def cn ce tc
          is_directed_def split: sum.splits bool.splits)
  qed
qed

theorem check_network_true_iff_witness:
  "wf_digraph example_net \<and> check_network example_net = Inr True \<and>
   acyclic (set (edges example_net)) \<and> weakly_connected example_net \<and>
   wf_digraph cyclic_net \<and> check_network cyclic_net = Inr False \<and>
   \<not> acyclic (set (edges cyclic_net))"
proof -
  have c: "check_network cyclic_net = Inr False"
    by (simp add: check_network_def is_directed_acyclic_graph_def is_directed_def
      topological_complete_def topo_cyclic find_cycle_def cyclic_net_eval)
  have "\<not> topological_complete cyclic_net"
    by (simp add: topological_complete_def topo_cyclic cyclic_net_eval)
  then have n: "\<not> acyclic (set (edges cyclic_net))"
    using topological_complete_iff [OF wf_cyclic_net] by simp
  show ?thesis
    using check_network_true_iff [OF wf_example_net] check_example wf_example_net
      wf_cyclic_net c n by simp
qed

subsection \<open>Upstream and downstream\<close>

lemma reach_in_nodes:
  assumes "wf_digraph g" and "s \<in> set (nodes g)" and "(u, s) \<in> (set (edges g))\<^sup>*"
  shows "u \<in> set (nodes g)"
  using assms(3,2)
proof (induction rule: converse_rtrancl_induct)
  case base
  then show ?case by simp
next
  case (step y z)
  then show ?case using wf_digraph_edge_nodes [OF assms(1)] by blast
qed

text \<open>The upstream half of C1 holds on the code: for a node of the network,
  \<open>get_up_streem_network\<close> returns a graph on the node and its ancestors.\<close>

lemma get_up_streem_network_nodes:
  assumes "wf_digraph net" and "node \<in> set (nodes net)"
  shows "\<exists>g. get_up_streem_network net node = Inr g \<and> wf_digraph g \<and>
             set (nodes g) = {u. (u, node) \<in> (set (edges net))\<^sup>*}"
proof -
  let ?g = "subgraph_copy net (bfs_rev (edges net) [node] [node])"
  have "set (nodes ?g) = {u. (u, node) \<in> (set (edges net))\<^sup>*}"
    using reach_in_nodes [OF assms]
    by (auto simp: subgraph_copy_nodes bfs_rev_reach simp del: bfs_rev.simps)
  with assms wf_subgraph_copy [OF assms(1)] show ?thesis
    by (simp add: get_up_streem_network_def)
qed

text \<open>\<open>get_downstream_network\<close> returns for no argument.\<close>

lemma get_downstream_network_never_returns:
  "get_downstream_network net node =
     (if node \<in> set (nodes net) then Inl TypeError else Inl NetworkXError)"
  by (simp add: get_downstream_network_def get_up_streem_network_def set_sub_def)

text \<open>
  C1: the downstream half of the claim fails on the code. On the example network and
  node \<open>2\<close>, where the specification expects the nodes \<open>3, 4, 5\<close>,
  \<open>get_downstream_network\<close> raises \<open>TypeError\<close>: it subtracts the upstream graph, not
  its node set, from the set of the nodes.
\<close>

theorem downstream_example_raises:
  "get_downstream_network example_net (PInt 2) = Inl TypeError"
  by (simp add: get_downstream_network_never_returns example_net_eval)

subsection \<open>The example of \<open>get_subgraph\<close>\<close>

lemma get_subgraph_example_nodes:
  "(case get_subgraph example_net example_gauge (PStr ''g2'') False of
      (Inr g, gauge') \<Rightarrow> nodes g = [PInt 1, PInt 2, PStr ''0'']
    | (Inl e, gauge') \<Rightarrow> False)"
  by code_simp

lemma get_subgraph_example_result:
  obtains g gauge' where
    "get_subgraph example_net example_gauge (PStr ''g2'') False = (Inr g, gauge')"
    and "nodes g = [PInt 1, PInt 2, PStr ''0'']"
proof -
  obtain r gauge' where
    eq: "get_subgraph example_net example_gauge (PStr ''g2'') False = (r, gauge')"
    by (rule prod.exhaust)
  have c: "(case r of Inr g \<Rightarrow> nodes g = [PInt 1, PInt 2, PStr ''0''] | Inl e \<Rightarrow> False)"
    using get_subgraph_example_nodes by (simp only: eq prod.case)
  then obtain g where "r = Inr g" and "nodes g = [PInt 1, PInt 2, PStr ''0'']"
    by (cases r) simp_all
  with eq that show thesis by blast
qed

text \<open>
  C2, as the code has it: for the edges \<open>(1,2), (2,3), (3,4), (2,5)\<close>, the gauges
  \<open>{g1: 1, g2: 2, g3: 3}\<close>, the gauge \<open>g2\<close> and no calibration, \<open>get_subgraph\<close> returns a
  graph with exactly the nodes \<open>1\<close>, \<open>2\<close> and \<open>"0"\<close>: node \<open>1\<close> drains into node \<open>2\<close>,
  and the nodes \<open>3\<close>, \<open>4\<close>, \<open>5\<close> lie downstream of it.
\<close>

theorem get_subgraph_example:
  "\<exists>g gauge'. get_subgraph example_net example_gauge (PStr ''g2'') False = (Inr g, gauge') \<and>
               set (nodes g) = {PInt 1, PInt 2, PStr ''0''}"
proof -
  from get_subgraph_example_result obtain g gauge' where
    eq: "get_subgraph example_net example_gauge (PStr ''g2'') False = (Inr g, gauge')"
    and n: "nodes g = [PInt 1, PInt 2, PStr ''0'']" .
  have "set (nodes g) = {PInt 1, PInt 2, PStr ''0''}"
    unfolding n by simp
  with eq show ?thesis by blast
qed

text \<open>The node set that the claim C2 states is not the one returned.\<close>

theorem get_subgraph_example_counterexample:
  "\<not> (\<exists>g gauge'. get_subgraph example_net example_gauge (PStr ''g2'') False = (Inr g, gauge') \<and>
                  set (nodes g) = {PInt 2, PInt 3, PInt 4, PInt 5, PStr ''0''})"
proof -
  from get_subgraph_example_result obtain g gauge' where
    eq: "get_subgraph example_net example_gauge (PStr ''g2'') False = (Inr g, gauge')"
    and n: "nodes g = [PInt 1, PInt 2, PStr ''0'']" .
  have "set (nodes g) \<noteq> {PInt 2, PInt 3, PInt 4, PInt 5, PStr ''0''}"
  proof
    assume "set (nodes g) = {PInt 2, PInt 3, PInt 4, PInt 5, PStr ''0''}"
    then have "PInt 3 \<in> set (nodes g)" by simp
    then show False unfolding n by simp
  qed
  with eq show ?thesis by auto
qed

subsection \<open>Writing and loading again\<close>

lemma is_space_simps:
  "is_space (CHR '' '')" "is_space (CHR 0x0A)" "is_space (CHR 0x0D)"
  by (simp_all add: is_space_def)

lemma clean_token_chars:
  "clean_token s \<Longrightarrow> c \<in> set s \<Longrightarrow>
   \<not> is_space c \<and> c \<noteq> CHR 0x22 \<and> c \<noteq> CHR '' '' \<and> c \<noteq> CHR 0x0A \<and> c \<noteq> CHR 0x0D"
  using is_space_simps by (auto simp: clean_token_def list_all_iff)

lemma csv_field_clean: "clean_token s \<Longrightarrow> csv_field s = s"
  using clean_token_chars [of s]
  by (auto simp: csv_field_def list_ex_iff csv_special_def)

lemma lines_aux_body:
  "\<forall>c \<in> set body. c \<noteq> CHR 0x0D \<and> c \<noteq> CHR 0x0A \<Longrightarrow>
   lines_aux cur (body @ CHR 0x0D # CHR 0x0A # rest) = (cur @ body @ [CHR 0x0A]) # lines_aux [] rest"
  by (induction body arbitrary: cur) simp_all

lemma file_lines_rows:
  "\<forall>r \<in> set rows. \<forall>c \<in> set r. c \<noteq> CHR 0x0D \<and> c \<noteq> CHR 0x0A \<Longrightarrow>
   file_lines (concat (map (\<lambda>r. r @ [CHR 0x0D, CHR 0x0A]) rows)) = map (\<lambda>r. r @ [CHR 0x0A]) rows"
  unfolding file_lines_def
proof (induction rows)
  case Nil
  then show ?case by simp
next
  case (Cons r rows)
  then have b: "\<forall>c \<in> set r. c \<noteq> CHR 0x0D \<and> c \<noteq> CHR 0x0A" by simp
  from Cons show ?case
    using lines_aux_body [OF b, of "[]"] by simp
qed

lemma split_aux_token:
  "\<forall>c \<in> set t. \<not> is_space c \<Longrightarrow> split_aux cur (t @ rest) = split_aux (cur @ t) rest"
  by (induction t arbitrary: cur) simp_all

lemma py_split_pair:
  assumes "clean_token a" and "clean_token b"
  shows "py_split (a @ [CHR '' ''] @ b @ [CHR 0x0A]) = [a, b]"
proof -
  have na: "\<forall>c \<in> set a. \<not> is_space c" and nb: "\<forall>c \<in> set b. \<not> is_space c"
    using assms clean_token_chars by blast+
  have ne: "a \<noteq> []" "b \<noteq> []" using assms by (simp_all add: clean_token_def)
  have "split_aux [] (a @ [CHR '' ''] @ b @ [CHR 0x0A]) = split_aux a ([CHR '' ''] @ b @ [CHR 0x0A])"
    using split_aux_token [OF na, of "[]"] by simp
  also have "\<dots> = a # split_aux [] (b @ [CHR 0x0A])"
    using ne is_space_simps by simp
  also have "split_aux [] (b @ [CHR 0x0A]) = split_aux b [CHR 0x0A]"
    using split_aux_token [OF nb, of "[]"] by simp
  also have "\<dots> = [b]"
    using ne is_space_simps by simp
  finally show ?thesis by (simp add: py_split_def)
qed

lemma token_node_str: "token_node n \<Longrightarrow> PStr (py_str n) = n \<and> clean_token (py_str n)"
  by (cases n) simp_all

lemma csv_row_tokens:
  "token_node n \<Longrightarrow> token_node v \<Longrightarrow> csv_row [n, v] = row_body (n, v) @ [CHR 0x0D, CHR 0x0A]"
  using token_node_str csv_field_clean by (simp add: csv_row_def row_body_def)

lemma row_body_chars:
  assumes "token_node n" and "token_node v" and "c \<in> set (row_body (n, v))"
  shows "c \<noteq> CHR 0x0D \<and> c \<noteq> CHR 0x0A"
  using assms token_node_str [of n] token_node_str [of v]
    clean_token_chars [of "py_str n" c] clean_token_chars [of "py_str v" c]
  by (auto simp: row_body_def)

lemma read_edges_rows:
  "\<forall>p \<in> set ps. token_node (fst p) \<and> token_node (snd p) \<Longrightarrow>
   read_edges (map (\<lambda>p. row_body p @ [CHR 0x0A]) ps) = Inr ps"
proof (induction ps)
  case Nil
  then show ?case by simp
next
  case (Cons p ps)
  obtain n v where p: "p = (n, v)" by (cases p)
  with Cons.prems have t: "token_node n" "token_node v" by simp_all
  have "py_split (row_body p @ [CHR 0x0A]) = [py_str n, py_str v]"
    using py_split_pair [of "py_str n" "py_str v"] token_node_str t
    by (simp add: p row_body_def)
  moreover have "read_edges (map (\<lambda>p. row_body p @ [CHR 0x0A]) ps) = Inr ps"
    using Cons by simp
  ultimately show ?case using token_node_str t by (simp add: p)
qed

lemma succs_single_edge:
  "successors g n = [v] \<Longrightarrow> ((n, w) \<in> set (edges g)) = (w = v)"
proof -
  assume a: "successors g n = [v]"
  have "set (successors g n) = {w. (n, w) \<in> set (edges g)}"
    by (auto simp: successors_def succs_def image_iff)
  with a show ?thesis by auto
qed

lemma successors_empty_no_edge:
  "successors g n = [] \<Longrightarrow> (n, w) \<notin> set (edges g)"
proof -
  assume a: "successors g n = []"
  have "set (successors g n) = {w. (n, w) \<in> set (edges g)}"
    by (auto simp: successors_def succs_def image_iff)
  with a show ?thesis by auto
qed

text \<open>
  C5, as the code has it: a network under the sink convention whose nodes are token
  strings (not empty, without whitespace and without double quote) is read back from the
  file that \<open>write_network\<close> makes of it with the same set of edges.
\<close>

theorem write_then_load_same_edges:
  assumes "wf_digraph T" and "list_all token_node (nodes T)" and "sink_convention T"
  shows "\<exists>g. get_raw_network (write_network T) = Inr g \<and> set (edges g) = set (edges T)"
proof -
  define first where
    "first = (\<lambda>n. case successors T n of [] \<Rightarrow> PStr ''0'' | v # _ \<Rightarrow> v)"
  define ns where "ns = filter (\<lambda>n. n \<noteq> PStr ''0'') (nodes T)"
  define ps where "ps = map (\<lambda>n. (n, first n)) ns"
  have one: "successors T n = [first n]" if "n \<in> set ns" for n
  proof -
    from that assms(3) have "length (successors T n) = 1"
      by (auto simp: ns_def sink_convention_def list_all_iff)
    then obtain v where "successors T n = [v]"
      by (cases "successors T n") auto
    then show ?thesis by (simp add: first_def)
  qed
  have edge: "(n, first n) \<in> set (edges T)" if "n \<in> set ns" for n
    using succs_single_edge [OF one [OF that]] by simp
  have tok: "\<forall>p \<in> set ps. token_node (fst p) \<and> token_node (snd p)"
  proof
    fix p assume "p \<in> set ps"
    then obtain n where n: "n \<in> set ns" and p: "p = (n, first n)"
      by (auto simp: ps_def)
    from edge [OF n] have "n \<in> set (nodes T)" "first n \<in> set (nodes T)"
      using wf_digraph_edge_nodes [OF assms(1)] by blast+
    with assms(2) p show "token_node (fst p) \<and> token_node (snd p)"
      by (simp add: list_all_iff)
  qed
  have "write_network T = concat (map (\<lambda>n. csv_row [n, first n]) ns)"
    by (simp add: write_network_def first_def ns_def)
  also have "map (\<lambda>n. csv_row [n, first n]) ns
      = map (\<lambda>r. r @ [CHR 0x0D, CHR 0x0A]) (map row_body ps)"
    using tok by (simp add: ps_def csv_row_tokens)
  finally have w: "write_network T
      = concat (map (\<lambda>r. r @ [CHR 0x0D, CHR 0x0A]) (map row_body ps))" .
  have "\<forall>r \<in> set (map row_body ps). \<forall>c \<in> set r. c \<noteq> CHR 0x0D \<and> c \<noteq> CHR 0x0A"
  proof (intro ballI)
    fix r c assume "r \<in> set (map row_body ps)" and c: "c \<in> set r"
    then obtain p where p: "p \<in> set ps" and r: "r = row_body p" by auto
    from tok p have "token_node (fst p)" "token_node (snd p)" by simp_all
    with c r row_body_chars [of "fst p" "snd p" c] show "c \<noteq> CHR 0x0D \<and> c \<noteq> CHR 0x0A"
      by simp
  qed
  from file_lines_rows [OF this]
  have "file_lines (write_network T) = map (\<lambda>p. row_body p @ [CHR 0x0A]) ps"
    unfolding w by (simp add: comp_def)
  then have "read_edges (file_lines (write_network T)) = Inr ps"
    using read_edges_rows [OF tok] by simp
  then have g: "get_raw_network (write_network T) = Inr (add_edges_from empty_graph ps)"
    by (simp add: get_raw_network_def)
  have "set ps = set (edges T)"
  proof
    show "set ps \<subseteq> set (edges T)"
      using edge by (auto simp: ps_def)
  next
    show "set (edges T) \<subseteq> set ps"
    proof
      fix e assume e: "e \<in> set (edges T)"
      obtain u v where uv: "e = (u, v)" by (cases e)
      from e uv have u: "u \<in> set (nodes T)"
        using wf_digraph_edge_nodes [OF assms(1)] by blast
      have "u \<noteq> PStr ''0''"
        using assms(3) successors_empty_no_edge [of T "PStr ''0''" v] e uv
        by (auto simp: sink_convention_def)
      with u have n: "u \<in> set ns" by (simp add: ns_def)
      from succs_single_edge [OF one [OF n], of v] e uv have "v = first u" by simp
      with n uv show "e \<in> set ps" by (auto simp: ps_def)
    qed
  qed
  then have "set (edges (add_edges_from empty_graph ps)) = set (edges T)"
    by (simp add: add_edges_from_edges empty_graph_def)
  with g show ?thesis by blast
qed

theorem write_then_load_same_edges_witness:
  "wf_digraph str_tree \<and> list_all token_node (nodes str_tree) \<and> sink_convention str_tree \<and>
   check_network str_tree = Inr True \<and>
   (\<exists>g. get_raw_network (write_network str_tree) = Inr g \<and>
        set (edges g) = {(PStr ''1'', PStr ''2''), (PStr ''2'', PStr ''0'')})"
proof -
  have a: "wf_digraph str_tree"
    by (simp add: wf_digraph_def str_tree_eval)
  have b: "list_all token_node (nodes str_tree)"
    by (simp add: str_tree_eval clean_token_def is_space_def)
  have c: "sink_convention str_tree"
    by (simp add: sink_convention_def str_tree_eval successors_def succs_def)
  have d: "check_network str_tree = Inr True"
    by code_simp
  from write_then_load_same_edges [OF a b c] a b c d show ?thesis
    by (simp add: str_tree_eval)
qed

lemma int_tree_written: "write_network int_tree = ''1 2'' @ [CHR 0x0D, CHR 0x0A] @ ''2 0'' @ [CHR 0x0D, CHR 0x0A]"
  by code_simp

lemma int_tree_loaded:
  "(case get_raw_network (write_network int_tree) of
      Inr g \<Rightarrow> edges g = [(PStr ''1'', PStr ''2''), (PStr ''2'', PStr ''0'')]
    | Inl e \<Rightarrow> False)"
  by code_simp

text \<open>
  The claim C5 fails on a valid tree with integer nodes, such as \<open>get_subgraph\<close> makes of
  the example network: the file holds the digits, and the loader reads them as strings.
\<close>

theorem write_then_load_counterexample:
  "wf_digraph int_tree \<and> check_network int_tree = Inr True \<and> sink_convention int_tree \<and>
   \<not> (\<exists>g. get_raw_network (write_network int_tree) = Inr g \<and>
           set (edges g) = set (edges int_tree))"
proof -
  have a: "wf_digraph int_tree"
    by (simp add: wf_digraph_def int_tree_eval)
  have b: "check_network int_tree = Inr True"
    by code_simp
  have c: "sink_convention int_tree"
    by (simp add: sink_convention_def int_tree_eval successors_def succs_def)
  have d: "set (edges g) \<noteq> set (edges int_tree)"
    if "get_raw_network (write_network int_tree) = Inr g" for g
  proof -
    from int_tree_loaded that
    have "edges g = [(PStr ''1'', PStr ''2''), (PStr ''2'', PStr ''0'')]" by simp
    then have "(PStr ''1'', PStr ''2'') \<in> set (edges g)" by simp
    moreover have "(PStr ''1'', PStr ''2'') \<notin> set (edges int_tree)"
      by (simp add: int_tree_eval)
    ultimately show ?thesis by blast
  qed
  from a b c d show ?thesis by blast
qed

text \<open>A double quote in a node name changes the name on the way through the file.\<close>

lemma quote_tree_loaded:
  "(case get_raw_network (write_network quote_tree) of
      Inr g \<Rightarrow> edges g =
        [(PStr [CHR 0x22, CHR ''a'', CHR 0x22, CHR 0x22, CHR ''b'', CHR 0x22], PStr ''0'')]
    | Inl e \<Rightarrow> False)"
  by code_simp

subsection \<open>Pruning the gauge dictionary\<close>

lemma dict_set_subset: "set (dict_set d k v) \<subseteq> insert (k, v) (set d)"
  by (induction d) (auto split: if_splits)

lemma reverse_dict_fold_subset:
  "set (foldl (\<lambda>d kv. dict_set d (snd kv) (fst kv)) d0 gauge)
     \<subseteq> set d0 \<union> (\<lambda>kv. (snd kv, fst kv)) ` set gauge"
proof (induction gauge arbitrary: d0)
  case Nil
  then show ?case by simp
next
  case (Cons kv gauge)
  from Cons [of "dict_set d0 (snd kv) (fst kv)"] dict_set_subset [of d0 "snd kv" "fst kv"]
  show ?case by auto
qed

lemma reverse_dict_entry: "(n, k) \<in> set (reverse_dict gauge) \<Longrightarrow> (k, n) \<in> set gauge"
  using reverse_dict_fold_subset [of "[]" gauge] by (auto simp: reverse_dict_def)

lemma dict_pop_Inr:
  "dict_pop d k = Inr (v, d') \<Longrightarrow> (k, v) \<in> set d \<and> d' = filter (\<lambda>p. fst p \<noteq> k) d"
  by (auto simp: dict_pop_def split: option.splits dest: map_of_SomeD)

lemma prune_gauges_keeps:
  assumes "prune_gauges keys rd gauge = (None, rd', gauge')"
    and "(k, v) \<in> set gauge"
    and "\<forall>key \<in> set keys. (key, k) \<notin> set rd"
  shows "(k, v) \<in> set gauge'"
  using assms
proof (induction keys arbitrary: rd gauge)
  case Nil
  then show ?case by simp
next
  case (Cons key keys)
  from Cons.prems(1) obtain val rd1 where p1: "dict_pop rd key = Inr (val, rd1)"
    by (cases "dict_pop rd key") auto
  from Cons.prems(1) p1 obtain x gauge1 where p2: "dict_pop gauge val = Inr (x, gauge1)"
    by (cases "dict_pop gauge val") auto
  from Cons.prems(1) p1 p2 have rec: "prune_gauges keys rd1 gauge1 = (None, rd', gauge')"
    by simp
  from dict_pop_Inr [OF p1] have kv: "(key, val) \<in> set rd"
    and rd1: "rd1 = filter (\<lambda>p. fst p \<noteq> key) rd" by simp_all
  from kv Cons.prems(3) have "val \<noteq> k" by auto
  with dict_pop_Inr [OF p2] Cons.prems(2) have in1: "(k, v) \<in> set gauge1" by auto
  have "\<forall>key \<in> set keys. (key, k) \<notin> set rd1"
    using Cons.prems(3) rd1 by auto
  from Cons.IH [OF rec in1 this] show ?case .
qed

lemma dict_set_new: "k \<notin> fst ` set d \<Longrightarrow> dict_set d k v = d @ [(k, v)]"
  by (induction d) auto

lemma reverse_dict_fold_injective:
  "distinct (map snd gauge) \<Longrightarrow> fst ` set d0 \<inter> snd ` set gauge = {} \<Longrightarrow>
   foldl (\<lambda>d kv. dict_set d (snd kv) (fst kv)) d0 gauge
     = d0 @ map (\<lambda>kv. (snd kv, fst kv)) gauge"
proof (induction gauge arbitrary: d0)
  case Nil
  then show ?case by simp
next
  case (Cons kv gauge)
  from Cons.prems(2) have "snd kv \<notin> fst ` set d0" by auto
  then have s: "dict_set d0 (snd kv) (fst kv) = d0 @ [(snd kv, fst kv)]"
    by (rule dict_set_new)
  have "fst ` set (d0 @ [(snd kv, fst kv)]) \<inter> snd ` set gauge = {}"
    using Cons.prems by auto
  with Cons.IH [of "d0 @ [(snd kv, fst kv)]"] Cons.prems(1) s show ?case by simp
qed

lemma reverse_dict_injective:
  "distinct (map snd gauge) \<Longrightarrow> reverse_dict gauge = map (\<lambda>kv. (snd kv, fst kv)) gauge"
  using reverse_dict_fold_injective [of gauge "[]"] by (simp add: reverse_dict_def)

lemma prune_gauges_injective:
  fixes gauge :: "(pyval \<times> pyval) list"
  assumes "distinct (map fst gauge)" and "distinct (map snd gauge)"
    and "set keys \<subseteq> snd ` set gauge" and "distinct keys"
  shows "prune_gauges keys (map (\<lambda>kv. (snd kv, fst kv)) gauge) gauge
         = (None, map (\<lambda>kv. (snd kv, fst kv)) (filter (\<lambda>p. snd p \<notin> set keys) gauge),
            filter (\<lambda>p. snd p \<notin> set keys) gauge)"
  using assms
proof (induction keys arbitrary: gauge)
  case Nil
  then show ?case by simp
next
  case (Cons key keys)
  let ?sw = "\<lambda>kv::pyval \<times> pyval. (snd kv, fst kv)"
  from Cons.prems(3) obtain k where kin: "(k, key) \<in> set gauge" by force
  have uniq_k: "fst p = k \<longleftrightarrow> snd p = key" if "p \<in> set gauge" for p
  proof
    assume "fst p = k"
    with that kin Cons.prems(1) show "snd p = key"
      by (metis eq_key_imp_eq_value prod.collapse)
  next
    assume "snd p = key"
    with that kin Cons.prems(2) show "fst p = k"
      by (metis distinct_map fst_conv inj_on_def snd_conv)
  qed
  have d_sw: "distinct (map fst (map ?sw gauge))"
    using Cons.prems(2) by (simp add: comp_def)
  have "(key, k) \<in> set (map ?sw gauge)" using kin by force
  with d_sw have m1: "map_of (map ?sw gauge) key = Some k" by simp
  have f1: "filter (\<lambda>p. fst p \<noteq> key) (map ?sw gauge)
            = map ?sw (filter (\<lambda>p. snd p \<noteq> key) gauge)"
    by (simp add: filter_map comp_def)
  have p1: "dict_pop (map ?sw gauge) key
            = Inr (k, map ?sw (filter (\<lambda>p. snd p \<noteq> key) gauge))"
    by (simp add: dict_pop_def m1 f1)
  from kin Cons.prems(1) have m2: "map_of gauge k = Some key" by simp
  have f2: "filter (\<lambda>p. fst p \<noteq> k) gauge = filter (\<lambda>p. snd p \<noteq> key) gauge"
    using uniq_k by (intro filter_cong) auto
  have p2: "dict_pop gauge k = Inr (key, filter (\<lambda>p. snd p \<noteq> key) gauge)"
    by (simp add: dict_pop_def m2 f2)
  let ?g1 = "filter (\<lambda>p. snd p \<noteq> key) gauge"
  have IH: "prune_gauges keys (map ?sw ?g1) ?g1
         = (None, map ?sw (filter (\<lambda>p. snd p \<notin> set keys) ?g1),
            filter (\<lambda>p. snd p \<notin> set keys) ?g1)"
  proof (rule Cons.IH)
    show "distinct (map fst ?g1)" using Cons.prems(1) by (simp add: distinct_map_filter)
    show "distinct (map snd ?g1)" using Cons.prems(2) by (simp add: distinct_map_filter)
    show "set keys \<subseteq> snd ` set ?g1" using Cons.prems(3,4) by force
    show "distinct keys" using Cons.prems(4) by simp
  qed
  have "filter (\<lambda>p. snd p \<notin> set keys) ?g1 = filter (\<lambda>p. snd p \<notin> set (key # keys)) gauge"
    by (simp add: conj_commute)
  with IH p1 p2 show ?case by simp
qed

lemma get_subgraph_gauge_injective:
  assumes "distinct (map fst gauge)" and "distinct (map snd gauge)"
    and "dict_get gauge gauge_id = Inr outlet"
    and "get_up_streem_network net outlet = Inr up"
  shows "snd (get_subgraph net gauge gauge_id c)
         = filter (\<lambda>kv. snd kv \<in> set (nodes up)) gauge"
proof -
  let ?sw = "\<lambda>kv::pyval \<times> pyval. (snd kv, fst kv)"
  let ?keys = "filter (\<lambda>key. \<not> has_node up key) (map fst (reverse_dict gauge))"
  have rd: "reverse_dict gauge = map ?sw gauge"
    using assms(2) by (rule reverse_dict_injective)
  have keys: "?keys = filter (\<lambda>n. n \<notin> set (nodes up)) (map snd gauge)"
    by (simp add: rd has_node_def comp_def)
  have "prune_gauges ?keys (map ?sw gauge) gauge
         = (None, map ?sw (filter (\<lambda>p. snd p \<notin> set ?keys) gauge),
            filter (\<lambda>p. snd p \<notin> set ?keys) gauge)"
  proof (rule prune_gauges_injective [OF assms(1,2)])
    show "set ?keys \<subseteq> snd ` set gauge" unfolding keys by auto
    show "distinct ?keys" unfolding keys using assms(2) by simp
  qed
  moreover have "filter (\<lambda>p. snd p \<notin> set ?keys) gauge
      = filter (\<lambda>kv. snd kv \<in> set (nodes up)) gauge"
    unfolding keys by (intro filter_cong) auto
  ultimately have pr: "prune_gauges ?keys (reverse_dict gauge) gauge
         = (None, map ?sw (filter (\<lambda>kv. snd kv \<in> set (nodes up)) gauge),
            filter (\<lambda>kv. snd kv \<in> set (nodes up)) gauge)"
    by (simp add: rd)
  show ?thesis
    by (simp add: get_subgraph_def assms(3,4) Let_def pr split: sum.splits)
qed

subsection \<open>The annotation loop\<close>

lemma annotate_node_step:
  assumes "annotate_node h gauge rd outlet n = Inr h'" and "n \<in> set (nodes h)"
  shows "nodes h' = nodes h" and "edges h' = edges h"
    and "\<And>v. v \<noteq> n \<Longrightarrow> node_attr h' v = node_attr h v"
    and "n \<in> snd ` set gauge \<Longrightarrow>
           node_attr h' n ''calibrate'' =
             Some (Some (PStr (if n = outlet then ''True'' else ''False'')))"
    and "n \<notin> snd ` set gauge \<Longrightarrow> predecessors h n = [] \<Longrightarrow>
           node_attr h' n ''calibrate'' = Some (Some (PStr ''False''))"
    and "\<And>p ps. n \<notin> snd ` set gauge \<Longrightarrow> predecessors h n = p # ps \<Longrightarrow>
           node_attr h' n ''calibrate'' = node_attr h p ''calibrate''"
proof -
  from assms(1) obtain a b where h': "h' = update_node h n a b"
    by (auto simp: annotate_node_def split: if_splits sum.splits list.splits option.splits)
  show "nodes h' = nodes h" "edges h' = edges h"
    by (simp_all add: h' update_node_struct)
  show "\<And>v. v \<noteq> n \<Longrightarrow> node_attr h' v = node_attr h v"
    by (simp add: h' update_node_attr_other)
  show "n \<in> snd ` set gauge \<Longrightarrow>
           node_attr h' n ''calibrate'' =
             Some (Some (PStr (if n = outlet then ''True'' else ''False'')))"
    using assms
    by (auto simp: annotate_node_def update_node_attr_calibrate split: sum.splits)
  show "n \<notin> snd ` set gauge \<Longrightarrow> predecessors h n = [] \<Longrightarrow>
           node_attr h' n ''calibrate'' = Some (Some (PStr ''False''))"
    using assms
    by (auto simp: annotate_node_def update_node_attr_calibrate)
  show "\<And>p ps. n \<notin> snd ` set gauge \<Longrightarrow> predecessors h n = p # ps \<Longrightarrow>
           node_attr h' n ''calibrate'' = node_attr h p ''calibrate''"
    using assms
    by (auto simp: annotate_node_def update_node_attr_calibrate split: option.splits)
qed

lemma annotate_nodes_invariant:
  assumes "annotate_nodes rest h gauge rd outlet = Inr g"
    and "edges h = es" and "nodes h = ns"
    and "distinct (pre @ rest)" and "set (pre @ rest) \<subseteq> set ns"
    and "topo_ok es (pre @ rest)"
    and "outlet \<in> snd ` set gauge"
    and "acyclic (set es)"
    and "\<forall>v \<in> set pre. calibrate_ok es outlet h v"
  shows "edges g = es \<and> nodes g = ns \<and> (\<forall>v \<in> set (pre @ rest). calibrate_ok es outlet g v)"
  using assms
proof (induction rest arbitrary: h pre)
  case Nil
  then show ?case by simp
next
  case (Cons n rest)
  from Cons.prems(1) obtain h' where
    st: "annotate_node h gauge rd outlet n = Inr h'"
    and rec: "annotate_nodes rest h' gauge rd outlet = Inr g"
    by (cases "annotate_node h gauge rd outlet n") auto
  from Cons.prems(3,5) have n_in: "n \<in> set (nodes h)" by simp
  note step = annotate_node_step [OF st n_in]
  from Cons.prems(4) have n_pre: "n \<notin> set pre" by simp
  have pn: "set (preds es n) \<subseteq> set pre"
    using topo_ok_mid [OF Cons.prems(6)] .
  have no_loop: "(outlet, outlet) \<notin> (set es)\<^sup>+"
    using Cons.prems(8) by (simp add: acyclic_def)
  have old: "calibrate_ok es outlet h' v" if "v \<in> set pre" for v
  proof -
    from that n_pre have "v \<noteq> n" by auto
    then have "node_attr h' v = node_attr h v" by (rule step(3))
    moreover from Cons.prems(9) that have "calibrate_ok es outlet h v" by blast
    ultimately show ?thesis
      unfolding calibrate_ok_def calibrated_def by metis
  qed
  have new: "calibrate_ok es outlet h' n"
  proof (cases "n \<in> snd ` set gauge")
    case True
    from step(4) [OF True] no_loop show ?thesis
      by (auto simp: calibrate_ok_def calibrated_def)
  next
    case False
    with Cons.prems(7) have ne: "n \<noteq> outlet" by auto
    show ?thesis
    proof (cases "predecessors h n")
      case Nil
      from step(5) [OF False Nil] ne show ?thesis
        by (simp add: calibrate_ok_def)
    next
      case (Cons p ps)
      then have "p \<in> set (preds es n)"
        using \<open>edges h = es\<close> by (simp add: predecessors_def)
      then have p_pre: "p \<in> set pre" and e: "(p, n) \<in> set es"
        using pn by (auto simp: set_preds)
      have "node_attr h' n ''calibrate'' = Some (Some (PStr ''False''))"
        if "(n, outlet) \<in> (set es)\<^sup>+"
      proof -
        from e that have "(p, outlet) \<in> (set es)\<^sup>+" by (rule trancl_into_trancl2)
        with \<open>\<forall>v \<in> set pre. calibrate_ok es outlet h v\<close> p_pre
        have "node_attr h p ''calibrate'' = Some (Some (PStr ''False''))"
          by (simp add: calibrate_ok_def)
        with step(6) [OF False Cons] show ?thesis by simp
      qed
      with ne show ?thesis by (simp add: calibrate_ok_def)
    qed
  qed
  have "edges g = es \<and> nodes g = ns \<and>
        (\<forall>v \<in> set ((pre @ [n]) @ rest). calibrate_ok es outlet g v)"
  proof (rule Cons.IH [OF rec])
    show "edges h' = es" using step(2) Cons.prems(2) by simp
    show "nodes h' = ns" using step(1) Cons.prems(3) by simp
    show "distinct ((pre @ [n]) @ rest)" using Cons.prems(4) by simp
    show "set ((pre @ [n]) @ rest) \<subseteq> set ns" using Cons.prems(5) by simp
    show "topo_ok es ((pre @ [n]) @ rest)" using Cons.prems(6) by simp
    show "outlet \<in> snd ` set gauge" by (rule Cons.prems(7))
    show "acyclic (set es)" by (rule Cons.prems(8))
    show "\<forall>v \<in> set (pre @ [n]). calibrate_ok es outlet h' v"
      using old new by auto
  qed
  then show ?case by simp
qed

subsection \<open>The calibration flag along the paths to the outlet\<close>

lemma get_subgraph_success:
  assumes "get_subgraph net gauge gauge_id c = (Inr g, gauge')"
  obtains outlet net_up rd' where
    "dict_get gauge gauge_id = Inr outlet"
    and "get_up_streem_network net outlet = Inr net_up"
    and "prune_gauges (filter (\<lambda>key. \<not> has_node net_up key) (map fst (reverse_dict gauge)))
           (reverse_dict gauge) gauge = (None, rd', gauge')"
    and "annotate_nodes
           (topological_prefix (prepared_network net_up (map fst rd') outlet gauge_id c))
           (prepared_network net_up (map fst rd') outlet gauge_id c) gauge' rd' outlet = Inr g"
    and "topological_complete (prepared_network net_up (map fst rd') outlet gauge_id c)"
proof -
  from assms obtain outlet where o: "dict_get gauge gauge_id = Inr outlet"
    by (cases "dict_get gauge gauge_id") (simp_all add: get_subgraph_def)
  from assms o obtain net_up where u: "get_up_streem_network net outlet = Inr net_up"
    by (cases "get_up_streem_network net outlet") (simp_all add: get_subgraph_def)
  let ?keys = "filter (\<lambda>key. \<not> has_node net_up key) (map fst (reverse_dict gauge))"
  obtain err rd' gauge1 where
    p: "prune_gauges ?keys (reverse_dict gauge) gauge = (err, rd', gauge1)"
    by (rule prod_cases3)
  let ?G = "prepared_network net_up (map fst rd') outlet gauge_id c"
  from assms o u p have e: "err = None"
    by (cases err) (simp_all add: get_subgraph_def Let_def)
  from assms o u p e obtain g1 where
    a: "annotate_nodes (topological_prefix ?G) ?G gauge1 rd' outlet = Inr g1"
    by (cases "annotate_nodes (topological_prefix ?G) ?G gauge1 rd' outlet")
       (simp_all add: get_subgraph_def Let_def prepared_network_def)
  from assms o u p e a have t: "topological_complete ?G" and "g1 = g" and "gauge1 = gauge'"
    by (simp_all add: get_subgraph_def Let_def prepared_network_def split: if_splits)
  with o u p e a that show thesis by blast
qed

lemma wf_prepared_network:
  "wf_digraph net_up \<Longrightarrow> wf_digraph (prepared_network net_up keys outlet gauge_id c)"
  by (simp add: prepared_network_def wf_set_node_attributes wf_add_edges_from
      wf_filter_to_calibrate)

lemma prepared_network_outlet:
  "outlet \<in> set (nodes (prepared_network net_up keys outlet gauge_id c))"
  by (simp add: prepared_network_def set_node_attributes_struct add_edges_from_nodes)

lemma is_path_reaches_last_all:
  "is_path es p \<Longrightarrow> \<forall>v \<in> set (butlast p). (v, last p) \<in> (set es)\<^sup>+"
proof (induction es p rule: is_path.induct)
  case (1 es)
  then show ?case by simp
next
  case (2 es v)
  then show ?case by simp
next
  case (3 es u w rest)
  from "3.prems" have e: "(u, w) \<in> set es" and ip: "is_path es (w # rest)" by simp_all
  note IH = "3.IH" [OF ip]
  have l: "last (u # w # rest) = last (w # rest)" by simp
  have wl: "(w, last (w # rest)) \<in> (set es)\<^sup>*"
  proof (cases "rest = []")
    case True
    then show ?thesis by simp
  next
    case False
    then have "w \<in> set (butlast (w # rest))" by simp
    with IH show ?thesis by (simp add: trancl_into_rtrancl)
  qed
  show ?case
  proof
    fix v assume v: "v \<in> set (butlast (u # w # rest))"
    show "(v, last (u # w # rest)) \<in> (set es)\<^sup>+"
    proof (cases "v = u")
      case True
      with e wl show ?thesis unfolding l by (simp add: rtrancl_into_trancl2)
    next
      case False
      with v have "v \<in> set (butlast (w # rest))" by (auto split: if_splits)
      with IH show ?thesis unfolding l by blast
    qed
  qed
qed

lemma is_path_reaches_last:
  "is_path es p \<Longrightarrow> v \<in> set (butlast p) \<Longrightarrow> (v, last p) \<in> (set es)\<^sup>+"
  using is_path_reaches_last_all by blast

lemma get_subgraph_calibrate:
  assumes "wf_digraph net" and "distinct (map fst gauge)"
    and "get_subgraph net gauge gauge_id c = (Inr g, gauge')"
    and "dict_get gauge gauge_id = Inr outlet"
  shows "calibrated g outlet"
    and "\<And>v. (v, outlet) \<in> (set (edges g))\<^sup>+ \<Longrightarrow> \<not> calibrated g v"
proof -
  from get_subgraph_success [OF assms(3)] assms(4)
  obtain net_up rd' where
    u: "get_up_streem_network net outlet = Inr net_up"
    and p: "prune_gauges (filter (\<lambda>key. \<not> has_node net_up key) (map fst (reverse_dict gauge)))
           (reverse_dict gauge) gauge = (None, rd', gauge')"
    and a: "annotate_nodes
           (topological_prefix (prepared_network net_up (map fst rd') outlet gauge_id c))
           (prepared_network net_up (map fst rd') outlet gauge_id c) gauge' rd' outlet = Inr g"
    and t: "topological_complete (prepared_network net_up (map fst rd') outlet gauge_id c)"
    by (metis sum.inject(2))
  define G where "G = prepared_network net_up (map fst rd') outlet gauge_id c"
  from u have o_net: "outlet \<in> set (nodes net)"
    by (auto simp: get_up_streem_network_def split: if_splits)
  from get_up_streem_network_nodes [OF assms(1) o_net] u
  have wu: "wf_digraph net_up" and nu: "set (nodes net_up) = {x. (x, outlet) \<in> (set (edges net))\<^sup>*}"
    by auto
  have wG: "wf_digraph G" unfolding G_def using wu by (rule wf_prepared_network)
  have acy: "acyclic (set (edges G))"
    using topological_complete_acyclic [OF wG] t by (simp add: G_def)
  have cover: "set (nodes G) \<subseteq> set (topological_prefix G)"
    using t by (simp add: G_def topological_complete_def)
  note pp = topological_prefix_props [OF wG]
  have go: "(gauge_id, outlet) \<in> set gauge"
    using assms(4) by (auto simp: dict_get_def split: option.splits dest: map_of_SomeD)
  have "\<forall>key \<in> set (filter (\<lambda>key. \<not> has_node net_up key) (map fst (reverse_dict gauge))).
          (key, gauge_id) \<notin> set (reverse_dict gauge)"
  proof (intro ballI notI)
    fix key
    assume k: "key \<in> set (filter (\<lambda>key. \<not> has_node net_up key) (map fst (reverse_dict gauge)))"
      and r: "(key, gauge_id) \<in> set (reverse_dict gauge)"
    from r have "(gauge_id, key) \<in> set gauge" by (rule reverse_dict_entry)
    with go assms(2) have "key = outlet"
      by (metis map_of_eq_Some_iff option.inject)
    with k nu show False by (simp add: has_node_def)
  qed
  from prune_gauges_keeps [OF p go this]
  have og: "outlet \<in> snd ` set gauge'" by force
  have inv: "edges g = edges G \<and> nodes g = nodes G \<and>
      (\<forall>v \<in> set ([] @ topological_prefix G). calibrate_ok (edges G) outlet g v)"
  proof (rule annotate_nodes_invariant [OF a [folded G_def]])
    show "edges G = edges G" "nodes G = nodes G" by simp_all
    show "distinct ([] @ topological_prefix G)" using pp(1) by simp
    show "set ([] @ topological_prefix G) \<subseteq> set (nodes G)" using pp(3) by simp
    show "topo_ok (edges G) ([] @ topological_prefix G)" using pp(2) by simp
    show "outlet \<in> snd ` set gauge'" by (rule og)
    show "acyclic (set (edges G))" by (rule acy)
    show "\<forall>v \<in> set []. calibrate_ok (edges G) outlet G v" by simp
  qed
  have "outlet \<in> set (topological_prefix G)"
    using cover prepared_network_outlet [of outlet net_up "map fst rd'" gauge_id c]
    by (auto simp: G_def)
  with inv show "calibrated g outlet" by (simp add: calibrate_ok_def)
  fix v assume r: "(v, outlet) \<in> (set (edges g))\<^sup>+"
  with inv have r': "(v, outlet) \<in> (set (edges G))\<^sup>+" by simp
  then obtain z where "(v, z) \<in> set (edges G)" by (auto dest: tranclD)
  then have "v \<in> set (nodes G)" using wf_digraph_edge_nodes [OF wG] by blast
  with cover have "v \<in> set (topological_prefix G)" by blast
  with inv r' have "node_attr g v ''calibrate'' = Some (Some (PStr ''False''))"
    by (simp add: calibrate_ok_def)
  then show "\<not> calibrated g v" by (simp add: calibrated_def)
qed

text \<open>
  C6: when \<open>get_subgraph\<close> is called with the calibration flag and returns a graph, the
  outlet has the \<open>calibrate\<close> attribute \<open>'True'\<close>, and on every directed path of the graph
  that ends at the outlet exactly one node has it.
\<close>

theorem calibrate_once_on_paths:
  assumes "wf_digraph net" and "distinct (map fst gauge)"
    and "dict_get gauge gauge_id = Inr outlet"
    and "get_subgraph net gauge gauge_id True = (Inr g, gauge')"
  shows "calibrated g outlet \<and>
         (\<forall>p. is_path (edges g) p \<and> last p = outlet \<longrightarrow>
              length (filter (calibrated g) p) = 1)"
proof (intro conjI allI impI)
  note c = get_subgraph_calibrate [OF assms(1,2,4,3)]
  show "calibrated g outlet" by (rule c(1))
  fix p assume p: "is_path (edges g) p \<and> last p = outlet"
  then have ne: "p \<noteq> []" by (cases p) auto
  have "\<not> calibrated g v" if "v \<in> set (butlast p)" for v
    using is_path_reaches_last [of "edges g" p v] p that c(2) by auto
  then have "filter (calibrated g) (butlast p) = []"
    by (simp add: filter_empty_conv)
  moreover have "p = butlast p @ [outlet]"
    using ne p by (metis append_butlast_last_id)
  ultimately have "filter (calibrated g) p = [outlet]"
    using c(1) by (metis append_Nil filter.simps filter_append)
  then show "length (filter (calibrated g) p) = 1" by simp
qed

lemma get_subgraph_g3_edges:
  "(case get_subgraph example_net example_gauge (PStr ''g3'') True of
      (Inr g, gauge') \<Rightarrow> edges g = [(PInt 2, PInt 3), (PInt 3, PStr ''0'')]
    | (Inl e, gauge') \<Rightarrow> False)"
  by code_simp

theorem calibrate_once_on_paths_witness:
  "wf_digraph example_net \<and> distinct (map fst example_gauge) \<and>
   dict_get example_gauge (PStr ''g3'') = Inr (PInt 3) \<and>
   (\<exists>g gauge'. get_subgraph example_net example_gauge (PStr ''g3'') True = (Inr g, gauge') \<and>
      is_path (edges g) [PInt 2, PInt 3] \<and> calibrated g (PInt 3) \<and>
      length (filter (calibrated g) [PInt 2, PInt 3]) = 1)"
proof -
  have d: "distinct (map fst example_gauge)" by (simp add: example_gauge_def)
  have o: "dict_get example_gauge (PStr ''g3'') = Inr (PInt 3)"
    by (simp add: example_gauge_def dict_get_def)
  obtain r gauge' where
    eq: "get_subgraph example_net example_gauge (PStr ''g3'') True = (r, gauge')"
    by (rule prod.exhaust)
  have "(case r of Inr g \<Rightarrow> edges g = [(PInt 2, PInt 3), (PInt 3, PStr ''0'')] | Inl e \<Rightarrow> False)"
    using get_subgraph_g3_edges by (simp only: eq prod.case)
  then obtain g where r: "r = Inr g"
    and e: "edges g = [(PInt 2, PInt 3), (PInt 3, PStr ''0'')]"
    by (cases r) simp_all
  have p: "is_path (edges g) [PInt 2, PInt 3]" by (simp add: e)
  note t = calibrate_once_on_paths [OF wf_example_net d o eq [unfolded r]]
  from t have c1: "calibrated g (PInt 3)" by blast
  from t have "is_path (edges g) [PInt 2, PInt 3] \<and> last [PInt 2, PInt 3] = PInt 3 \<longrightarrow>
      length (filter (calibrated g) [PInt 2, PInt 3]) = 1" by blast
  with p have c2: "length (filter (calibrated g) [PInt 2, PInt 3]) = 1" by simp
  from wf_example_net d o eq r p c1 c2 show ?thesis by blast
qed

subsection \<open>Sorting nodes\<close>

lemma sort_key_positions:
  assumes "i < length xs" and "j < length xs"
    and "f (sort_key f xs ! i) < f (sort_key f xs ! j)"
  shows "i < (j::nat)"
proof (rule ccontr)
  assume "\<not> i < j"
  then have "j \<le> i" by simp
  have "sorted (map f (sort_key f xs))" by (rule sorted_sort_key)
  then have "map f (sort_key f xs) ! j \<le> map f (sort_key f xs) ! i"
    using \<open>j \<le> i\<close> assms(1) by (intro sorted_nth_mono) auto
  then have "f (sort_key f xs ! j) \<le> f (sort_key f xs ! i)"
    using assms(1,2) by simp
  with assms(3) show False by simp
qed

text \<open>
  C7: on an acyclic \<open>DiGraph\<close> and a list of its nodes, \<open>sort_node\<close> returns the list
  rearranged so that a node from which a directed path leads to another one stands before
  it; on a graph with a cycle it raises \<open>NetworkXUnfeasible\<close>.
\<close>

theorem sort_node_topological:
  assumes "wf_digraph net"
  shows "(acyclic (set (edges net)) \<and> set ns \<subseteq> set (nodes net) \<longrightarrow>
            (\<exists>r. sort_node net ns = Inr r \<and> mset r = mset ns \<and>
                 (\<forall>i j. i < length r \<and> j < length r \<and>
                        (r ! i, r ! j) \<in> (set (edges net))\<^sup>+ \<longrightarrow> i < j))) \<and>
         (\<not> acyclic (set (edges net)) \<longrightarrow> sort_node net ns = Inl NetworkXUnfeasible)"
proof (intro conjI impI)
  assume a: "acyclic (set (edges net)) \<and> set ns \<subseteq> set (nodes net)"
  then have tc: "topological_complete net"
    using topological_complete_iff [OF assms] by simp
  let ?f = "index_of (topological_prefix net)"
  let ?r = "sort_key ?f ns"
  have "list_all (\<lambda>x. x \<in> set (topological_prefix net)) ns"
    using a tc by (auto simp: topological_complete_def list_all_iff)
  then have r: "sort_node net ns = Inr ?r"
    by (simp add: sort_node_def topological_sort_def tc)
  have ord: "i < j" if "i < length ?r" "j < length ?r"
    "(?r ! i, ?r ! j) \<in> (set (edges net))\<^sup>+" for i j
  proof -
    from topological_complete_path_index [OF assms tc that(3)]
    have "?f (?r ! i) < ?f (?r ! j)" .
    with that(1,2) show ?thesis
      using sort_key_positions [of i ns j ?f] by simp
  qed
  show "\<exists>r. sort_node net ns = Inr r \<and> mset r = mset ns \<and>
             (\<forall>i j. i < length r \<and> j < length r \<and>
                    (r ! i, r ! j) \<in> (set (edges net))\<^sup>+ \<longrightarrow> i < j)"
    using r ord by (intro exI [of _ ?r]) auto
next
  assume "\<not> acyclic (set (edges net))"
  then have "\<not> topological_complete net"
    using topological_complete_iff [OF assms] by simp
  then show "sort_node net ns = Inl NetworkXUnfeasible"
    by (simp add: sort_node_def topological_sort_def)
qed

lemma sort_example: "sort_node example_net [PInt 4, PInt 2, PInt 1] = Inr [PInt 1, PInt 2, PInt 4]"
  by (simp add: sort_node_def topological_sort_def topological_complete_def topo_example
      example_net_eval)

theorem sort_node_topological_witness:
  "wf_digraph example_net \<and> acyclic (set (edges example_net)) \<and>
   set [PInt 4, PInt 2, PInt 1] \<subseteq> set (nodes example_net) \<and>
   sort_node example_net [PInt 4, PInt 2, PInt 1] = Inr [PInt 1, PInt 2, PInt 4] \<and>
   wf_digraph cyclic_net \<and> \<not> acyclic (set (edges cyclic_net)) \<and>
   sort_node cyclic_net [PInt 2, PInt 1] = Inl NetworkXUnfeasible"
proof -
  have "topological_complete example_net"
    by (simp add: topological_complete_def topo_example example_net_eval)
  then have a: "acyclic (set (edges example_net))"
    using topological_complete_iff [OF wf_example_net] by simp
  have s: "set [PInt 4, PInt 2, PInt 1] \<subseteq> set (nodes example_net)"
    by (simp add: example_net_eval)
  have "\<not> topological_complete cyclic_net"
    by (simp add: topological_complete_def topo_cyclic cyclic_net_eval)
  then have n: "\<not> acyclic (set (edges cyclic_net))"
    using topological_complete_iff [OF wf_cyclic_net] by simp
  from sort_node_topological [OF wf_cyclic_net, of "[PInt 2, PInt 1]"] n
  have c: "sort_node cyclic_net [PInt 2, PInt 1] = Inl NetworkXUnfeasible" by blast
  from sort_node_topological [OF wf_example_net, of "[PInt 4, PInt 2, PInt 1]"] a s
  obtain r where "sort_node example_net [PInt 4, PInt 2, PInt 1] = Inr r" by blast
  with sort_example have "sort_node example_net [PInt 4, PInt 2, PInt 1] = Inr [PInt 1, PInt 2, PInt 4]"
    by simp
  with wf_example_net a s wf_cyclic_net n c show ?thesis by simp
qed

subsection \<open>What is copied and what is changed in place\<close>

lemma store_ok_fresh:
  "store_ok s \<Longrightarrow> graph_at s r = Some g \<Longrightarrow> r < next_ref s"
  by (rule ccontr) (simp add: store_ok_def not_less)

lemma store_ok_next: "store_ok s \<Longrightarrow> graph_at s (next_ref s) = None"
  by (simp add: store_ok_def)

text \<open>
  C8, as the code has it: \<open>get_up_streem_network\<close> returns a graph object that did not
  exist before and leaves the network it was given as it is; \<open>filter_to_calibrate\<close>
  returns the reference it was given, with the graph behind it filtered; \<open>get_subgraph\<close>
  leaves its network as it is and changes the gauge dictionary of its caller, and when no
  two gauges of the dictionary sit at the same node, the entries it keeps are exactly those
  whose node is in the upstream network.
\<close>

theorem copies_and_mutations:
  assumes "store_ok s" and "graph_at s net_ref = Some net"
  shows "(get_up_streem_network net node = Inr up \<longrightarrow>
            get_up_streem_network_obj s net_ref node
              = (Inr (next_ref s),
                 s\<lparr>graph_at := (graph_at s)(next_ref s \<mapsto> up), next_ref := Suc (next_ref s)\<rparr>) \<and>
            next_ref s \<noteq> net_ref \<and> graph_at s (next_ref s) = None \<and>
            graph_at (snd (get_up_streem_network_obj s net_ref node)) net_ref = Some net) \<and>
         filter_to_calibrate_obj s net_ref ns outlet
           = (Inr net_ref,
              s\<lparr>graph_at := (graph_at s)(net_ref \<mapsto> filter_to_calibrate net ns outlet)\<rparr>) \<and>
         (dict_at s gauge_ref = Some gauge \<and>
          distinct (map fst gauge) \<and> distinct (map snd gauge) \<and>
          dict_get gauge gauge_id = Inr gauge_node \<and>
          get_up_streem_network net gauge_node = Inr net_up \<longrightarrow>
            dict_at (snd (get_subgraph_obj s net_ref gauge_ref gauge_id c)) gauge_ref
              = Some (filter (\<lambda>kv. snd kv \<in> set (nodes net_up)) gauge) \<and>
            graph_at (snd (get_subgraph_obj s net_ref gauge_ref gauge_id c)) net_ref = Some net)"
proof (intro conjI impI)
  note lt = store_ok_fresh [OF assms]
  note fr = store_ok_next [OF assms(1)]
  {
    assume u: "get_up_streem_network net node = Inr up"
    show "get_up_streem_network_obj s net_ref node
              = (Inr (next_ref s),
                 s\<lparr>graph_at := (graph_at s)(next_ref s \<mapsto> up), next_ref := Suc (next_ref s)\<rparr>)"
      by (simp add: get_up_streem_network_obj_def assms(2) u alloc_graph_def)
    show "next_ref s \<noteq> net_ref" using lt by simp
    show "graph_at s (next_ref s) = None" by (rule fr)
    show "graph_at (snd (get_up_streem_network_obj s net_ref node)) net_ref = Some net"
      using lt by (simp add: get_up_streem_network_obj_def assms(2) u alloc_graph_def)
  }
  show "filter_to_calibrate_obj s net_ref ns outlet
           = (Inr net_ref,
              s\<lparr>graph_at := (graph_at s)(net_ref \<mapsto> filter_to_calibrate net ns outlet)\<rparr>)"
    by (simp add: filter_to_calibrate_obj_def assms(2))
  {
    assume a: "dict_at s gauge_ref = Some gauge \<and>
          distinct (map fst gauge) \<and> distinct (map snd gauge) \<and>
          dict_get gauge gauge_id = Inr gauge_node \<and>
          get_up_streem_network net gauge_node = Inr net_up"
    then have g: "snd (get_subgraph net gauge gauge_id c)
         = filter (\<lambda>kv. snd kv \<in> set (nodes net_up)) gauge"
      using get_subgraph_gauge_injective by blast
    obtain res gauge' where eq: "get_subgraph net gauge gauge_id c = (res, gauge')"
      by (rule prod.exhaust)
    with g have g': "gauge' = filter (\<lambda>kv. snd kv \<in> set (nodes net_up)) gauge" by simp
    show "dict_at (snd (get_subgraph_obj s net_ref gauge_ref gauge_id c)) gauge_ref
              = Some (filter (\<lambda>kv. snd kv \<in> set (nodes net_up)) gauge)"
      using a
      by (cases res)
         (simp_all add: get_subgraph_obj_def assms(2) eq g' alloc_graph_def Let_def)
    show "graph_at (snd (get_subgraph_obj s net_ref gauge_ref gauge_id c)) net_ref = Some net"
      using a lt
      by (cases res)
         (simp_all add: get_subgraph_obj_def assms(2) eq alloc_graph_def Let_def)
  }
qed

lemma example_upstream_nodes:
  "(case get_up_streem_network example_net (PInt 2) of
      Inr up \<Rightarrow> nodes up = [PInt 1, PInt 2]
    | Inl e \<Rightarrow> False)"
  by code_simp

lemma example_upstream:
  obtains up where "get_up_streem_network example_net (PInt 2) = Inr up"
    and "nodes up = [PInt 1, PInt 2]"
  using example_upstream_nodes
  by (cases "get_up_streem_network example_net (PInt 2)") simp_all

lemma store_ok_example: "store_ok (example_store gauge)"
  by (simp add: store_ok_def example_store_def)

lemma example_filtered_nodes:
  "nodes (filter_to_calibrate example_net [PInt 3] (PInt 5)) = [PInt 3, PInt 4, PInt 5]"
  by code_simp

theorem copies_and_mutations_witness:
  "store_ok (example_store example_gauge) \<and>
   graph_at (example_store example_gauge) 0 = Some example_net \<and>
   dict_at (example_store example_gauge) 1 = Some example_gauge \<and>
   distinct (map fst example_gauge) \<and> distinct (map snd example_gauge) \<and>
   dict_get example_gauge (PStr ''g2'') = Inr (PInt 2) \<and>
   fst (get_up_streem_network_obj (example_store example_gauge) 0 (PInt 2)) = Inr 2 \<and>
   graph_at (snd (get_up_streem_network_obj (example_store example_gauge) 0 (PInt 2))) 0
     = Some example_net \<and>
   fst (filter_to_calibrate_obj (example_store example_gauge) 0 [PInt 3] (PInt 5)) = Inr 0 \<and>
   map_option nodes
     (graph_at (snd (filter_to_calibrate_obj (example_store example_gauge) 0 [PInt 3] (PInt 5))) 0)
     = Some [PInt 3, PInt 4, PInt 5] \<and>
   dict_at (snd (get_subgraph_obj (example_store example_gauge) 0 1 (PStr ''g2'') False)) 1
     = Some [(PStr ''g1'', PInt 1), (PStr ''g2'', PInt 2)]"
proof -
  let ?s = "example_store example_gauge"
  have g: "graph_at ?s 0 = Some example_net" by (simp add: example_store_def)
  have d: "dict_at ?s 1 = Some example_gauge" by (simp add: example_store_def)
  have n: "next_ref ?s = 2" by (simp add: example_store_def)
  have d1: "distinct (map fst example_gauge)" and d2: "distinct (map snd example_gauge)"
    by (simp_all add: example_gauge_def)
  have o: "dict_get example_gauge (PStr ''g2'') = Inr (PInt 2)"
    by (simp add: example_gauge_def dict_get_def)
  obtain up where u: "get_up_streem_network example_net (PInt 2) = Inr up"
    and nu: "nodes up = [PInt 1, PInt 2]" by (rule example_upstream)
  note t = copies_and_mutations [OF store_ok_example g,
      of "PInt 2" up "[PInt 3]" "PInt 5" 1 example_gauge "PStr ''g2''" "PInt 2" up False]
  from t u have c1: "get_up_streem_network_obj ?s 0 (PInt 2)
      = (Inr (next_ref ?s),
         ?s\<lparr>graph_at := (graph_at ?s)(next_ref ?s \<mapsto> up), next_ref := Suc (next_ref ?s)\<rparr>)"
    and a2: "graph_at (snd (get_up_streem_network_obj ?s 0 (PInt 2))) 0 = Some example_net"
    by blast+
  from c1 have a1: "fst (get_up_streem_network_obj ?s 0 (PInt 2)) = Inr 2"
    by (simp add: n)
  from t have c3: "filter_to_calibrate_obj ?s 0 [PInt 3] (PInt 5)
      = (Inr 0, ?s\<lparr>graph_at := (graph_at ?s)(0 \<mapsto>
           filter_to_calibrate example_net [PInt 3] (PInt 5))\<rparr>)"
    by blast
  have a3: "fst (filter_to_calibrate_obj ?s 0 [PInt 3] (PInt 5)) = Inr 0"
    unfolding c3 by simp
  have a4: "map_option nodes
     (graph_at (snd (filter_to_calibrate_obj ?s 0 [PInt 3] (PInt 5))) 0)
     = Some [PInt 3, PInt 4, PInt 5]"
    unfolding c3 by (simp add: example_filtered_nodes del: filter_to_calibrate.simps)
  from t d d1 d2 o u
  have "dict_at (snd (get_subgraph_obj ?s 0 1 (PStr ''g2'') False)) 1
      = Some (filter (\<lambda>kv. snd kv \<in> set (nodes up)) example_gauge)"
    by blast
  then have a5: "dict_at (snd (get_subgraph_obj ?s 0 1 (PStr ''g2'') False)) 1
     = Some [(PStr ''g1'', PInt 1), (PStr ''g2'', PInt 2)]"
    by (simp add: nu example_gauge_def)
  from store_ok_example g d d1 d2 o a1 a2 a3 a4 a5 show ?thesis by blast
qed

lemma shared_gauge_pruned:
  "dict_at (snd (get_subgraph_obj (example_store shared_gauge) 0 1 (PStr ''g2'') False)) 1
     = Some [(PStr ''g1'', PInt 3), (PStr ''g2'', PInt 2)]"
  by code_simp

text \<open>
  The claim C8 fails where two gauges sit at one node: of the gauges \<open>g1\<close> and \<open>g3\<close> at
  node \<open>3\<close>, which is not upstream of node \<open>2\<close>, only \<open>g3\<close> is removed.
\<close>

theorem gauge_pruning_counterexample:
  "\<exists>up. get_up_streem_network example_net (PInt 2) = Inr up \<and>
        PInt 3 \<notin> set (nodes up) \<and>
        dict_at (snd (get_subgraph_obj (example_store shared_gauge) 0 1 (PStr ''g2'') False)) 1
          = Some [(PStr ''g1'', PInt 3), (PStr ''g2'', PInt 2)] \<and>
        dict_at (snd (get_subgraph_obj (example_store shared_gauge) 0 1 (PStr ''g2'') False)) 1
          \<noteq> Some (filter (\<lambda>kv. snd kv \<in> set (nodes up)) shared_gauge)"
proof -
  obtain up where u: "get_up_streem_network example_net (PInt 2) = Inr up"
    and nu: "nodes up = [PInt 1, PInt 2]" by (rule example_upstream)
  have "filter (\<lambda>kv. snd kv \<in> set (nodes up)) shared_gauge = [(PStr ''g2'', PInt 2)]"
    by (simp add: nu shared_gauge_def)
  with u nu shared_gauge_pruned show ?thesis by (intro exI [of _ up]) simp
qed

subsection \<open>The gauge dictionary file\<close>

lemma map_of_dict_set: "map_of (dict_set d k v) = (map_of d)(k \<mapsto> v)"
  by (induction d) auto

lemma read_gauge_total:
  "\<forall>l \<in> set ls. 2 \<le> length (py_split l) \<Longrightarrow>
   \<exists>gauge. read_gauge ls g0 = Inr gauge \<and>
           map_of gauge = map_of g0 ++ map_of (rev (map gauge_entry ls))"
proof (induction ls arbitrary: g0)
  case Nil
  then show ?case by simp
next
  case (Cons l ls)
  from Cons.prems obtain a b r where p: "py_split l = a # b # r"
    by (cases "py_split l"; cases "tl (py_split l)") auto
  from Cons.prems have "\<forall>l \<in> set ls. 2 \<le> length (py_split l)" by simp
  from Cons.IH [OF this, of "dict_set g0 (PStr a) (PStr b)"]
  obtain gauge where g: "read_gauge ls (dict_set g0 (PStr a) (PStr b)) = Inr gauge"
    and m: "map_of gauge = map_of (dict_set g0 (PStr a) (PStr b)) ++ map_of (rev (map gauge_entry ls))"
    by blast
  have "map_of gauge = map_of g0 ++ map_of (rev (map gauge_entry (l # ls)))"
    unfolding m by (simp add: map_of_dict_set gauge_entry_def p)
  with g p show ?case by simp
qed

lemma read_gauge_short_line:
  "l \<in> set ls \<Longrightarrow> length (py_split l) < 2 \<Longrightarrow> read_gauge ls g0 = Inl IndexError"
proof (induction ls arbitrary: g0)
  case Nil
  then show ?case by simp
next
  case (Cons a ls)
  show ?case
  proof (cases "length (py_split a) < 2")
    case True
    then show ?thesis by (auto split: list.splits)
  next
    case False
    with Cons.prems have "l \<in> set ls" by auto
    from Cons.IH [OF this Cons.prems(2)] show ?thesis
      by (auto split: list.splits)
  qed
qed

text \<open>
  C9, as the code has it: on a file whose lines all have two tokens,
  \<open>create_stream_gauge_dictionary\<close> builds the mapping of the file in its loop (a later
  line for a gauge replaces an earlier one) and returns \<open>None\<close>; on a file with a line of
  fewer than two tokens it raises \<open>IndexError\<close>; in neither case does the caller receive
  the dictionary.
\<close>

theorem gauge_dictionary_parsed_and_dropped:
  "(list_all (\<lambda>l. 2 \<le> length (py_split l)) (file_lines content) \<longrightarrow>
      (\<exists>gauge. read_gauge (file_lines content) [] = Inr gauge \<and>
               map_of gauge = map_of (rev (map gauge_entry (file_lines content)))) \<and>
      create_stream_gauge_dictionary content = Inr None) \<and>
   (\<not> list_all (\<lambda>l. 2 \<le> length (py_split l)) (file_lines content) \<longrightarrow>
      read_gauge (file_lines content) [] = Inl IndexError \<and>
      create_stream_gauge_dictionary content = Inl IndexError) \<and>
   create_stream_gauge_dictionary content \<noteq> Inr (Some d)"
proof (intro conjI impI)
  assume "list_all (\<lambda>l. 2 \<le> length (py_split l)) (file_lines content)"
  then have a: "\<forall>l \<in> set (file_lines content). 2 \<le> length (py_split l)"
    by (simp add: list_all_iff)
  from read_gauge_total [OF a, of "[]"]
  show "\<exists>gauge. read_gauge (file_lines content) [] = Inr gauge \<and>
               map_of gauge = map_of (rev (map gauge_entry (file_lines content)))"
    by simp
  then show "create_stream_gauge_dictionary content = Inr None"
    by (auto simp: create_stream_gauge_dictionary_def)
next
  assume "\<not> list_all (\<lambda>l. 2 \<le> length (py_split l)) (file_lines content)"
  then obtain l where "l \<in> set (file_lines content)" and "length (py_split l) < 2"
    by (auto simp: list_all_iff not_le)
  then show r: "read_gauge (file_lines content) [] = Inl IndexError"
    by (rule read_gauge_short_line)
  show "create_stream_gauge_dictionary content = Inl IndexError"
    by (simp add: create_stream_gauge_dictionary_def r)
next
  show "create_stream_gauge_dictionary content \<noteq> Inr (Some d)"
    by (simp add: create_stream_gauge_dictionary_def split: sum.splits)
qed

theorem gauge_dictionary_parsed_and_dropped_witness:
  "list_all (\<lambda>l. 2 \<le> length (py_split l))
     (file_lines (''g1 1'' @ [CHR 0x0A] @ ''g2 2'' @ [CHR 0x0A])) \<and>
   read_gauge (file_lines (''g1 1'' @ [CHR 0x0A] @ ''g2 2'' @ [CHR 0x0A])) []
     = Inr [(PStr ''g1'', PStr ''1''), (PStr ''g2'', PStr ''2'')] \<and>
   create_stream_gauge_dictionary (''g1 1'' @ [CHR 0x0A] @ ''g2 2'' @ [CHR 0x0A]) = Inr None \<and>
   \<not> list_all (\<lambda>l. 2 \<le> length (py_split l)) (file_lines ''g1'') \<and>
   create_stream_gauge_dictionary ''g1'' = Inl IndexError"
proof -
  let ?c = "''g1 1'' @ [CHR 0x0A] @ ''g2 2'' @ [CHR 0x0A]"
  have l: "file_lines ?c = [''g1 1'' @ [CHR 0x0A], ''g2 2'' @ [CHR 0x0A]]"
    by (simp add: file_lines_def)
  have s1: "py_split (''g1 1'' @ [CHR 0x0A]) = [''g1'', ''1'']"
    by (simp add: py_split_def is_space_def)
  have s2: "py_split (''g2 2'' @ [CHR 0x0A]) = [''g2'', ''2'']"
    by (simp add: py_split_def is_space_def)
  have a: "list_all (\<lambda>l. 2 \<le> length (py_split l)) (file_lines ?c)"
    unfolding l using s1 s2 by simp
  have r: "read_gauge (file_lines ?c) [] = Inr [(PStr ''g1'', PStr ''1''), (PStr ''g2'', PStr ''2'')]"
    unfolding l using s1 s2 by simp
  from gauge_dictionary_parsed_and_dropped [of ?c "[]"] a
  have n: "create_stream_gauge_dictionary ?c = Inr None" by blast
  have l2: "file_lines ''g1'' = [''g1'']"
    by (simp add: file_lines_def)
  have s3: "py_split ''g1'' = [''g1'']"
    by (simp add: py_split_def is_space_def)
  have b: "\<not> list_all (\<lambda>l. 2 \<le> length (py_split l)) (file_lines ''g1'')"
    unfolding l2 using s3 by simp
  from gauge_dictionary_parsed_and_dropped [of "''g1''" "[]"] b
  have e: "create_stream_gauge_dictionary ''g1'' = Inl IndexError" by blast
  from a r n b e show ?thesis by blast
qed

text \<open>
  The claim C9 fails on a file with a short line: for the two lines \<open>g1 1\<close> and \<open>g2\<close>
  the call does not return \<open>None\<close>, it raises \<open>IndexError\<close>.
\<close>

theorem gauge_dictionary_counterexample:
  "create_stream_gauge_dictionary (''g1 1'' @ [CHR 0x0A] @ ''g2'' @ [CHR 0x0A]) = Inl IndexError \<and>
   create_stream_gauge_dictionary (''g1 1'' @ [CHR 0x0A] @ ''g2'' @ [CHR 0x0A]) \<noteq> Inr None"
proof -
  have l: "file_lines (''g1 1'' @ [CHR 0x0A] @ ''g2'' @ [CHR 0x0A])
           = [''g1 1'' @ [CHR 0x0A], ''g2'' @ [CHR 0x0A]]"
    by (simp add: file_lines_def)
  have s1: "py_split (''g1 1'' @ [CHR 0x0A]) = [''g1'', ''1'']"
    by (simp add: py_split_def is_space_def)
  have s2: "py_split (''g2'' @ [CHR 0x0A]) = [''g2'']"
    by (simp add: py_split_def is_space_def)
  have "create_stream_gauge_dictionary (''g1 1'' @ [CHR 0x0A] @ ''g2'' @ [CHR 0x0A])
        = Inl IndexError"
    unfolding create_stream_gauge_dictionary_def l using s1 s2 by simp
  then show ?thesis by simp
qed

end
